theory Spec2Isabelle
  imports Main "HOL-Library.Option_ord" "HOL-Library.Product_Lexorder"
begin

section \<open>Data model of the simulation engine (uamp\_sim.py)\<close>

text \<open>
  Exceptions of the Python source are values: a function that can raise returns
  \<open>error + 'a\<close>, with \<open>Inl\<close> for the exception. \<open>SystemExit\<close> is what
  \<^verbatim>\<open>exit(1)\<close> raises, \<open>EOFError\<close> what \<^verbatim>\<open>input()\<close> raises at the end of the
  operator's input, \<open>IndexError\<close> what indexing an empty deque raises.
\<close>

datatype error =
    TypeError string
  | Exception string
  | SystemExit int
  | EOFError
  | IndexError
  | KeyError

text \<open>
  \<^verbatim>\<open>EventType\<close> is declared in a module that is not part of the sources at hand; the
  engine names two of its members, \<^verbatim>\<open>SIM_DEBUG\<close> and \<^verbatim>\<open>SIM_ALARM\<close>. Every other member
  is a domain event type, told apart by a number.
\<close>

datatype event_type = SIM_DEBUG | SIM_ALARM | DOMAIN nat

text \<open>
  An event object. \<open>timestamp\<close> is \<open>None\<close> while the Python attribute is \<^verbatim>\<open>None\<close>
  (unset), otherwise a number. Alarm events carry a period and a repeating flag as well
  (\<^verbatim>\<open>is_repeating()\<close> reads the flag). Events are values here: the model has no two
  references to one mutable event object.
\<close>

record event =
  timestamp :: "int option"
  event_type :: event_type
  payload :: nat
  period :: int
  repeating :: bool

text \<open>The class \<^verbatim>\<open>Priority\<close>.\<close>

definition DEBUG_FIRST :: nat where "DEBUG_FIRST = 0"
definition ALARM :: nat where "ALARM = 5"
definition TRACE :: nat where "TRACE = 10"
definition DEBUG_LAST :: nat where "DEBUG_LAST = 1024"

definition EVENT_QUEUE_THRESHOLD :: nat where "EVENT_QUEUE_THRESHOLD = 100"

subsection \<open>The event queue\<close>

text \<open>
  Modelled from the spec: the class \<^verbatim>\<open>PriorityQueue\<close> of \<^verbatim>\<open>utils\<close> is not among the
  sources. The spec gives its contract: \<^verbatim>\<open>push(event, sort_key)\<close>, \<^verbatim>\<open>pop()\<close> removes
  and returns the minimum by sort key, \<^verbatim>\<open>peek()\<close> returns it without removing it,
  \<^verbatim>\<open>size()\<close>, \<^verbatim>\<open>empty()\<close>; entries are ordered ascending by timestamp, then ascending by
  priority class. The queue is the list of its entries in the order in which they will be
  popped. Sort keys are Python tuples \<^verbatim>\<open>(timestamp, priority_class)\<close>, compared
  lexicographically; an unset timestamp sorts before every number. Among entries of equal
  key the one pushed first is popped first. \<^verbatim>\<open>pop\<close> and \<^verbatim>\<open>peek\<close> on an empty queue raise
  \<open>IndexError\<close>.
\<close>

type_synonym sort_key = "int option \<times> nat"
type_synonym priority_queue = "(sort_key \<times> event) list"

fun push :: "event \<Rightarrow> sort_key \<Rightarrow> priority_queue \<Rightarrow> priority_queue" where
  "push x k [] = [(k, x)]"
| "push x k ((k', y) # q) =
     (if k < k' then (k, x) # (k', y) # q else (k', y) # push x k q)"

definition pop :: "priority_queue \<Rightarrow> error + (event \<times> priority_queue)" where
  "pop q = (case q of [] \<Rightarrow> Inl IndexError | (k, x) # q' \<Rightarrow> Inr (x, q'))"

definition peek :: "priority_queue \<Rightarrow> error + event" where
  "peek q = (case q of [] \<Rightarrow> Inl IndexError | (k, x) # q' \<Rightarrow> Inr x)"

definition size_queue :: "priority_queue \<Rightarrow> nat" where
  "size_queue q = length q"

definition empty_queue :: "priority_queue \<Rightarrow> bool" where
  "empty_queue q = (q = [])"

subsection \<open>The trace reader\<close>

text \<open>
  Modelled from the spec: the trace reader (\<^verbatim>\<open>trace_reader\<close>) is not among the sources.
  The spec gives its contract: \<^verbatim>\<open>end_of_trace()\<close>; \<^verbatim>\<open>peek_event()\<close>, the earliest
  not-yet-pulled trace event or none; \<^verbatim>\<open>get_events(count)\<close>, which consumes and returns
  up to \<open>count\<close> upcoming events. The reader's state is the list of the events not yet
  pulled.
\<close>

definition end_of_trace :: "event list \<Rightarrow> bool" where
  "end_of_trace tr = (tr = [])"

definition peek_event :: "event list \<Rightarrow> event option" where
  "peek_event tr = (case tr of [] \<Rightarrow> None | x # _ \<Rightarrow> Some x)"

definition get_events :: "nat \<Rightarrow> event list \<Rightarrow> event list \<times> event list" where
  "get_events count tr = (take count tr, drop count tr)"

subsection \<open>Modules and the simulator object\<close>

text \<open>
  The module type enumeration is declared outside the sources at hand. A member is
  identified by its \<^verbatim>\<open>.value\<close>. A dictionary key is either an enumeration member or a
  plain value. How a member behaves as a dictionary key depends on the enumeration's
  declaration, which is a parameter: a member of a plain \<^verbatim>\<open>enum.Enum\<close> is equal only to
  itself, a member of an enumeration with a value mix-in (\<^verbatim>\<open>IntEnum\<close>, \<^verbatim>\<open>str, Enum\<close>)
  hashes and compares like its value.
\<close>

datatype module_type = ModuleType (type_value: string)

datatype dict_key = EnumMember module_type | EnumValue string

datatype enum_kind = PlainEnum | ValueMixinEnum

definition member_key :: "enum_kind \<Rightarrow> module_type \<Rightarrow> dict_key" where
  "member_key kind t =
     (case kind of PlainEnum \<Rightarrow> EnumMember t | ValueMixinEnum \<Rightarrow> EnumValue (type_value t))"

text \<open>A simulation module, as far as the engine reads it: \<^verbatim>\<open>get_name()\<close> and \<^verbatim>\<open>get_type()\<close>.\<close>

record sim_module =
  get_name :: string
  get_type :: module_type

text \<open>What \<^verbatim>\<open>register\<close> can be handed: an instance of \<^verbatim>\<open>SimModule\<close>, or any other object.\<close>

datatype pyobject = SimModuleObj sim_module | OtherObj

text \<open>
  A subscription is a pair of an optional filter and a handler. Handlers are callables of
  the modules; the model names a handler by a number and takes what it does from the
  environment (below).
\<close>

type_synonym listener = "(event \<Rightarrow> bool) option \<times> nat"

text \<open>What the engine writes to standard output: the prompt of \<^verbatim>\<open>input\<close>, a printed line, a printed event.\<close>

datatype out_item = Prompt string | Line string | EventLine event

text \<open>
  The fields of \<^verbatim>\<open>Simulator\<close>, then the operator's pending input lines and the output
  written so far, then four logs that the source does not keep and that only record what
  happened: the events dispatched by the run loop, the value given to \<open>current_time\<close> at
  each dispatch, the handler calls made by \<^verbatim>\<open>broadcast\<close> (handler and event passed) and
  the alarms whose fire action was invoked.
\<close>

record simulator =
  sim_modules :: "string \<rightharpoonup> sim_module"
  module_type_map :: "dict_key \<rightharpoonup> sim_module list"
  event_queue :: priority_queue
  current_time :: "int option"
  event_listeners :: "event_type \<rightharpoonup> listener list"
  trace_reader :: "event list"
  verbose :: bool
  debug_mode :: bool
  debug_interval :: int
  debug_interval_cnt :: int
  stdin :: "string list"
  stdout :: "out_item list"
  dispatched :: "event list"
  clock_log :: "int option list"
  invoked :: "(nat \<times> event) list"
  fired :: "event list"
  finished :: bool

definition init :: simulator where
  "init = \<lparr> sim_modules = Map.empty, module_type_map = Map.empty, event_queue = [],
            current_time = None, event_listeners = Map.empty, trace_reader = [],
            verbose = False, debug_mode = False, debug_interval = 1,
            debug_interval_cnt = 0, stdin = [], stdout = [], dispatched = [],
            clock_log = [], invoked = [], fired = [], finished = False \<rparr>"

text \<open>
  The environment of the engine: what the code outside the sources does when the engine
  calls it. \<open>handler_alarms h s e\<close> are the alarms that handler \<open>h\<close>, called with event
  \<open>e\<close> in state \<open>s\<close>, registers through \<^verbatim>\<open>register_alarm\<close>. \<open>fire s a\<close> is the alarm
  object after its \<^verbatim>\<open>fire()\<close> ran in state \<open>s\<close>, with the alarms the fire action
  registered. \<open>py_int\<close> is Python's \<^verbatim>\<open>int\<close> on a string (\<open>None\<close> for \<^verbatim>\<open>ValueError\<close>).
  Handlers and fire actions return normally, leave the subscription table alone and do
  not broadcast.
\<close>

record env =
  handler_alarms :: "nat \<Rightarrow> simulator \<Rightarrow> event \<Rightarrow> event list"
  fire :: "simulator \<Rightarrow> event \<Rightarrow> event \<times> event list"
  py_int :: "string \<Rightarrow> int option"

text \<open>A \<^verbatim>\<open>defaultdict(deque)\<close> read at a key: the deque stored there, or a new empty one.\<close>

definition deque_at :: "('k \<rightharpoonup> 'v list) \<Rightarrow> 'k \<Rightarrow> 'v list" where
  "deque_at m k = (case m k of None \<Rightarrow> [] | Some d \<Rightarrow> d)"

text \<open>What the source does next with a result that may be an exception.\<close>

definition and_then :: "error + 'a \<Rightarrow> ('a \<Rightarrow> error + 'b) \<Rightarrow> error + 'b" where
  "and_then r f = (case r of Inl e \<Rightarrow> Inl e | Inr x \<Rightarrow> f x)"

section \<open>The module registry\<close>

definition has_module_instance :: "string \<Rightarrow> simulator \<Rightarrow> bool" where
  "has_module_instance name s = (sim_modules s name \<noteq> None)"

definition get_module_instance :: "string \<Rightarrow> simulator \<Rightarrow> error + sim_module" where
  "get_module_instance name s =
     (case sim_modules s name of None \<Rightarrow> Inl KeyError | Some m \<Rightarrow> Inr m)"

text \<open>
  \<^verbatim>\<open>get_module_for_type\<close> tests membership with the enumeration member itself and then
  indexes with the member's \<^verbatim>\<open>.value\<close>. Indexing a \<^verbatim>\<open>defaultdict\<close> stores an empty deque
  under a missing key, and \<^verbatim>\<open>[0]\<close> on an empty deque raises.
\<close>

definition get_module_for_type ::
  "enum_kind \<Rightarrow> module_type \<Rightarrow> simulator \<Rightarrow> (error + sim_module option) \<times> simulator" where
  "get_module_for_type kind module_type s =
     (if module_type_map s (member_key kind module_type) \<noteq> None then
        (let k = EnumValue (type_value module_type);
             d = deque_at (module_type_map s) k;
             s' = s\<lparr>module_type_map := (module_type_map s)(k \<mapsto> d)\<rparr>
         in case d of [] \<Rightarrow> (Inl IndexError, s') | m # _ \<Rightarrow> (Inr (Some m), s'))
      else (Inr None, s))"

definition register :: "pyobject \<Rightarrow> bool \<Rightarrow> simulator \<Rightarrow> error + simulator" where
  "register obj override s =
     (case obj of
        OtherObj \<Rightarrow> Inl (TypeError ''Expected SimModule object'')
      | SimModuleObj sim_module \<Rightarrow>
          if sim_modules s (get_name sim_module) \<noteq> None
          then Inl (Exception (''Module '' @ get_name sim_module @ '' already exists''))
          else
            (let k = EnumValue (type_value (get_type sim_module));
                 d = deque_at (module_type_map s) k
             in Inr (s\<lparr>sim_modules := (sim_modules s)(get_name sim_module \<mapsto> sim_module),
                      module_type_map := (module_type_map s)
                        (k \<mapsto> (if override then sim_module # d else d @ [sim_module]))\<rparr>)))"

section \<open>The event bus\<close>

definition subscribe ::
  "event_type \<Rightarrow> nat \<Rightarrow> (event \<Rightarrow> bool) option \<Rightarrow> simulator \<Rightarrow> simulator" where
  "subscribe etype handler event_filter s =
     (let listeners = (case event_listeners s etype of None \<Rightarrow> [] | Some l \<Rightarrow> l)
      in s\<lparr>event_listeners := (event_listeners s)(etype \<mapsto> listeners @ [(event_filter, handler)])\<rparr>)"

definition register_alarm :: "event \<Rightarrow> simulator \<Rightarrow> simulator" where
  "register_alarm alarm s =
     s\<lparr>event_queue := push alarm (timestamp alarm, ALARM) (event_queue s)\<rparr>"

definition register_alarms :: "event list \<Rightarrow> simulator \<Rightarrow> simulator" where
  "register_alarms alarms s = foldl (\<lambda>s' a. register_alarm a s') s alarms"

text \<open>
  Python's truth value of a timestamp, as \<^verbatim>\<open>if event.timestamp:\<close> takes it: \<^verbatim>\<open>None\<close> is
  false, and so is the number zero.
\<close>

definition truthy :: "int option \<Rightarrow> bool" where
  "truthy ts = (case ts of None \<Rightarrow> False | Some t \<Rightarrow> t \<noteq> 0)"

text \<open>A call \<^verbatim>\<open>handler(event)\<close>: the call is logged, then the handler registers its alarms.\<close>

definition call_handler :: "env \<Rightarrow> nat \<Rightarrow> event \<Rightarrow> simulator \<Rightarrow> simulator" where
  "call_handler env handler event s =
     register_alarms (handler_alarms env handler s event)
       (s\<lparr>invoked := invoked s @ [(handler, event)]\<rparr>)"

text \<open>The loop over the listeners: \<^verbatim>\<open>if not event_filter or event_filter(event): handler(event)\<close>.\<close>

definition passes :: "event \<Rightarrow> (event \<Rightarrow> bool) option \<Rightarrow> bool" where
  "passes event event_filter = (case event_filter of None \<Rightarrow> True | Some f \<Rightarrow> f event)"

fun notify :: "env \<Rightarrow> event \<Rightarrow> listener list \<Rightarrow> simulator \<Rightarrow> simulator" where
  "notify env event [] s = s"
| "notify env event ((event_filter, handler) # listeners) s =
     (if passes event event_filter
      then notify env event listeners (call_handler env handler event s)
      else notify env event listeners s)"

text \<open>
  The second half of \<^verbatim>\<open>broadcast\<close>: the listeners of the event's type are read from the
  \<^verbatim>\<open>defaultdict\<close> (which stores an empty deque under a type it does not hold yet) and
  notified in order.
\<close>

definition send_to_listeners :: "env \<Rightarrow> event \<Rightarrow> simulator \<Rightarrow> simulator" where
  "send_to_listeners env event s =
     (let listeners = deque_at (event_listeners s) (event_type event)
      in notify env event listeners
           (s\<lparr>event_listeners := (event_listeners s)(event_type event \<mapsto> listeners)\<rparr>))"

text \<open>\<^verbatim>\<open>broadcast\<close> returns the event as it is after the call (it may have been stamped) and the new state.\<close>

definition broadcast :: "env \<Rightarrow> event \<Rightarrow> simulator \<Rightarrow> error + (event \<times> simulator)" where
  "broadcast env event s =
     (if truthy (timestamp event) then
        (if timestamp event \<noteq> current_time s
         then Inl (Exception ''Broadcasting event with invalid timestamp.'')
         else Inr (event, send_to_listeners env event s))
      else
        (let event' = event\<lparr>timestamp := current_time s\<rparr>
         in Inr (event', send_to_listeners env event' s)))"

definition get_current_time :: "simulator \<Rightarrow> int option" where
  "get_current_time s = current_time s"

section \<open>The debug controller\<close>

text \<open>\<^verbatim>\<open>command.split(sep=' ')\<close>: the pieces between single spaces, empty pieces included.\<close>

fun split_space :: "string \<Rightarrow> string list" where
  "split_space [] = [[]]"
| "split_space (c # cs) =
     (if c = CHR '' '' then [] # split_space cs
      else (case split_space cs of [] \<Rightarrow> [[c]] | w # ws \<Rightarrow> (c # w) # ws))"

definition usage_interval :: string where
  "usage_interval = ''Command Usage Error: interval command expects one numerical value''"

definition usage_verbose_argument :: string where
  "usage_verbose_argument =
     ''Command Usage Error: verbose command expects '' @ [CHR 0x27] @ ''on'' @ [CHR 0x27] @
     '' or '' @ [CHR 0x27] @ ''off'' @ [CHR 0x27] @ '' for argument''"

definition usage_verbose_count :: string where
  "usage_verbose_count = ''Command Usage Error: verbose command expects at most one argument''"

definition print_line :: "string \<Rightarrow> simulator \<Rightarrow> simulator" where
  "print_line msg s = s\<lparr>stdout := stdout s @ [Line msg]\<rparr>"

text \<open>One non-empty command line of the debug prompt (the body of \<^verbatim>\<open>if command:\<close>).\<close>

definition debug_command :: "env \<Rightarrow> string \<Rightarrow> simulator \<Rightarrow> error + simulator" where
  "debug_command env command s =
     (case split_space command of
        [] \<Rightarrow> Inr s
      | cmd # args \<Rightarrow>
          if cmd = ''quit'' \<or> cmd = ''exit'' \<or> cmd = ''q'' then Inl (SystemExit 1)
          else if cmd = ''interval'' then
            (if length args = 1 then
               (case py_int env (hd args) of
                  Some n \<Rightarrow> Inr (s\<lparr>debug_interval := n\<rparr>)
                | None \<Rightarrow> Inr (print_line usage_interval s))
             else Inr (print_line usage_interval s))
          else if cmd = ''verbose'' then
            (if length args = 0 then Inr (s\<lparr>verbose := True\<rparr>)
             else if length args = 1 then
               (if hd args = ''on'' then Inr (s\<lparr>verbose := True\<rparr>)
                else if hd args = ''off'' then Inr (s\<lparr>verbose := False\<rparr>)
                else Inr (print_line usage_verbose_argument s))
             else Inr (print_line usage_verbose_count s))
          else Inr s)"

text \<open>
  The loop \<^verbatim>\<open>while True\<close> of \<^verbatim>\<open>__debug\<close>, over the lines the operator will type:
  \<^verbatim>\<open>input\<close> writes the prompt and takes the next line, and raises \<open>EOFError\<close> when there is
  none; an empty line leaves the loop.
\<close>

definition prompt :: string where
  "prompt = ''(uamp-sim debug) $ ''"

fun debug_loop :: "env \<Rightarrow> string list \<Rightarrow> simulator \<Rightarrow> error + simulator" where
  "debug_loop env [] s = Inl EOFError"
| "debug_loop env (command # rest) s =
     (let s0 = s\<lparr>stdin := rest, stdout := stdout s @ [Prompt prompt]\<rparr>
      in if command \<noteq> []
         then and_then (debug_command env command s0) (debug_loop env rest)
         else Inr s0)"

definition debug :: "env \<Rightarrow> simulator \<Rightarrow> error + simulator" where
  "debug env s = debug_loop env (stdin s) s"

section \<open>The run loop\<close>

definition populate_event_queue_from_trace :: "simulator \<Rightarrow> simulator" where
  "populate_event_queue_from_trace s =
     (let (events, rest) = get_events EVENT_QUEUE_THRESHOLD (trace_reader s)
      in s\<lparr>trace_reader := rest,
            event_queue := foldl (\<lambda>q x. push x (timestamp x, TRACE) q) (event_queue s) events\<rparr>)"

text \<open>The alarm's own \<^verbatim>\<open>fire()\<close>: logged, then its effects are taken from the environment.\<close>

definition fire_alarm :: "env \<Rightarrow> event \<Rightarrow> simulator \<Rightarrow> event \<times> simulator" where
  "fire_alarm env alarm s =
     (let (alarm', registered) = fire env s alarm
      in (alarm', register_alarms registered (s\<lparr>fired := fired s @ [alarm]\<rparr>)))"

definition execute_event :: "env \<Rightarrow> event \<Rightarrow> simulator \<Rightarrow> error + simulator" where
  "execute_event env event s =
     (if event_type event = SIM_DEBUG then debug env s
      else if event_type event = SIM_ALARM then
        (let (event', s1) = fire_alarm env event s
         in if repeating event'
            then Inr (s1\<lparr>event_queue := push event' (timestamp event', ALARM) (event_queue s1)\<rparr>)
            else Inr s1)
      else and_then (broadcast env event s) (\<lambda>(event', s'). Inr s'))"

text \<open>
  The test \<^verbatim>\<open>trace_event and cur_event.timestamp > trace_event.timestamp\<close>. Python cannot
  order \<^verbatim>\<open>None\<close> against a timestamp and raises \<open>TypeError\<close>.
\<close>

definition trace_is_earlier :: "event \<Rightarrow> event option \<Rightarrow> error + bool" where
  "trace_is_earlier cur_event trace_event =
     (case trace_event of
        None \<Rightarrow> Inr False
      | Some t \<Rightarrow>
          (case (timestamp cur_event, timestamp t) of
             (Some a, Some b) \<Rightarrow> Inr (a > b)
           | _ \<Rightarrow> Inl (TypeError ''> not supported between these instances'')))"

text \<open>The debug bookkeeping of a dispatch: \<^verbatim>\<open>if self.debug_mode: ...\<close>.\<close>

definition debug_break :: "env \<Rightarrow> simulator \<Rightarrow> error + simulator" where
  "debug_break env s =
     (if debug_mode s then
        (let s1 = s\<lparr>debug_interval_cnt := debug_interval_cnt s + 1\<rparr>
         in if debug_interval_cnt s1 = debug_interval s1
            then and_then (debug env s1) (\<lambda>s2. Inr (s2\<lparr>debug_interval_cnt := 0\<rparr>))
            else Inr s1)
      else Inr s)"

text \<open>
  The dispatch of \<open>cur_event\<close>, from \<^verbatim>\<open>self.event_queue.pop()\<close> to
  \<^verbatim>\<open>self.__execute_event(cur_event)\<close>.
\<close>

definition dispatch :: "env \<Rightarrow> event \<Rightarrow> simulator \<Rightarrow> error + simulator" where
  "dispatch env cur_event s =
     and_then (pop (event_queue s)) (\<lambda>(popped, q).
       (let s1 = s\<lparr>event_queue := q, current_time := timestamp cur_event,
                    dispatched := dispatched s @ [cur_event],
                    clock_log := clock_log s @ [timestamp cur_event]\<rparr>;
            s2 = (if verbose s1 then s1\<lparr>stdout := stdout s1 @ [EventLine cur_event]\<rparr> else s1)
        in and_then (debug_break env s2) (execute_event env cur_event)))"

text \<open>The condition of the \<^verbatim>\<open>while\<close> loop of \<^verbatim>\<open>run\<close>, and one pass through its body.\<close>

definition loop_guard :: "simulator \<Rightarrow> bool" where
  "loop_guard s = (\<not> end_of_trace (trace_reader s) \<or> \<not> empty_queue (event_queue s))"

definition step :: "env \<Rightarrow> simulator \<Rightarrow> error + simulator" where
  "step env s =
     (if size_queue (event_queue s) < EVENT_QUEUE_THRESHOLD \<and> \<not> end_of_trace (trace_reader s)
      then Inr (populate_event_queue_from_trace s)
      else
        and_then (peek (event_queue s)) (\<lambda>cur_event.
        and_then (trace_is_earlier cur_event (peek_event (trace_reader s))) (\<lambda>earlier.
          if earlier then Inr (populate_event_queue_from_trace s)
          else dispatch env cur_event s)))"

text \<open>
  The loop may run forever (a repeating alarm is pushed again each time it fires), so it
  is run on fuel: \<open>run_loop env n s\<close> is the state after \<open>n\<close> passes through the body, or
  after fewer when the loop condition has become false. The loop has ended in the state
  returned when \<open>loop_guard\<close> is false there.
\<close>

fun run_loop :: "env \<Rightarrow> nat \<Rightarrow> simulator \<Rightarrow> error + simulator" where
  "run_loop env 0 s = Inr s"
| "run_loop env (Suc n) s =
     (if loop_guard s then and_then (step env s) (run_loop env n) else Inr s)"

text \<open>\<^verbatim>\<open>__finish\<close> calls \<^verbatim>\<open>finish()\<close> of every module; the model records that it was reached.\<close>

definition finish :: "simulator \<Rightarrow> simulator" where
  "finish s = s\<lparr>finished := True\<rparr>"

text \<open>
  \<^verbatim>\<open>run\<close>, with the events of the trace file in place of the file's name: the reader is
  built, the debug controller is entered if debug mode is on, the loop runs on \<open>fuel\<close>,
  and \<^verbatim>\<open>__finish\<close> is called once the loop has ended.
\<close>

definition run :: "env \<Rightarrow> nat \<Rightarrow> event list \<Rightarrow> simulator \<Rightarrow> error + simulator" where
  "run env fuel events s =
     (let s0 = s\<lparr>trace_reader := events\<rparr>
      in and_then (if debug_mode s0 then debug env (s0\<lparr>debug_interval_cnt := 0\<rparr>) else Inr s0)
           (\<lambda>s1. and_then (run_loop env fuel s1)
              (\<lambda>s2. Inr (if loop_guard s2 then s2 else finish s2))))"

section \<open>Predicates and inputs used by the theorems\<close>

text \<open>
  Every key of the type map is a plain value: what \<^verbatim>\<open>register\<close>, which stores under
  \<^verbatim>\<open>get_type().value\<close>, keeps true.
\<close>

definition value_keyed :: "simulator \<Rightarrow> bool" where
  "value_keyed s = (\<forall>t. module_type_map s (EnumMember t) = None)"

text \<open>No key of the type map holds an empty deque.\<close>

definition no_empty_deque :: "simulator \<Rightarrow> bool" where
  "no_empty_deque s = (\<forall>k. module_type_map s k \<noteq> Some [])"

definition cpu_module :: sim_module where
  "cpu_module = \<lparr> get_name = ''cpu'', get_type = ModuleType ''power'' \<rparr>"

definition cpu_registered :: simulator where
  "cpu_registered =
     init\<lparr>sim_modules := [''cpu'' \<mapsto> cpu_module],
          module_type_map := [EnumValue ''power'' \<mapsto> [cpu_module]]\<rparr>"

text \<open>Example events, and example environments: one in which modules register nothing and a
  fire action adds the period to the alarm's timestamp, and one in which every handler
  registers an alarm for time 3 whenever it is called.\<close>

definition trace_event_at :: "int \<Rightarrow> event" where
  "trace_event_at t =
     \<lparr> timestamp = Some t, event_type = DOMAIN 0, payload = 0, period = 0, repeating = False \<rparr>"

definition alarm_at :: "int \<Rightarrow> int \<Rightarrow> bool \<Rightarrow> event" where
  "alarm_at t p r =
     \<lparr> timestamp = Some t, event_type = SIM_ALARM, payload = 0, period = p, repeating = r \<rparr>"

definition advance :: "event \<Rightarrow> event" where
  "advance a = a\<lparr>timestamp := map_option (\<lambda>t. t + period a) (timestamp a)\<rparr>"

definition quiet_env :: env where
  "quiet_env = \<lparr> handler_alarms = (\<lambda>h s e. []), fire = (\<lambda>s a. (advance a, [])),
                 py_int = (\<lambda>x. None) \<rparr>"

definition late_env :: env where
  "late_env = \<lparr> handler_alarms = (\<lambda>h s e. [alarm_at 3 0 False]),
                fire = (\<lambda>s a. (advance a, [])), py_int = (\<lambda>x. None) \<rparr>"

definition unstamped_event :: event where
  "unstamped_event =
     \<lparr> timestamp = None, event_type = DOMAIN 0, payload = 0, period = 0, repeating = False \<rparr>"

definition zero_payload :: "event \<Rightarrow> bool" where
  "zero_payload e = (payload e = 0)"

definition at_seven :: simulator where
  "at_seven = init\<lparr>current_time := Some 7\<rparr>"

definition one_subscriber :: simulator where
  "one_subscriber = subscribe (DOMAIN 1) 4 None at_seven"

text \<open>
  The malformed commands of the debug prompt: \<^verbatim>\<open>interval\<close> with a number of arguments
  other than one or with an argument that \<^verbatim>\<open>int\<close> rejects, \<^verbatim>\<open>verbose\<close> with more than
  one argument or with one argument other than \<^verbatim>\<open>on\<close> and \<^verbatim>\<open>off\<close>.
\<close>

definition malformed :: "env \<Rightarrow> string \<Rightarrow> bool" where
  "malformed env command =
     (case split_space command of
        [] \<Rightarrow> False
      | cmd # args \<Rightarrow>
          (cmd = ''interval'' \<and> (length args \<noteq> 1 \<or> py_int env (hd args) = None))
          \<or> (cmd = ''verbose'' \<and>
               (length args > 1 \<or> (length args = 1 \<and> hd args \<noteq> ''on'' \<and> hd args \<noteq> ''off''))))"

definition usage_messages :: "string list" where
  "usage_messages = [usage_interval, usage_verbose_argument, usage_verbose_count]"

text \<open>
  The queue is in order: its entries are listed by ascending sort key. The empty queue is,
  and \<^verbatim>\<open>push\<close> and \<^verbatim>\<open>pop\<close> keep it so.
\<close>

definition queue_sorted :: "priority_queue \<Rightarrow> bool" where
  "queue_sorted q = sorted (map fst q)"

text \<open>The pushes of \<^verbatim>\<open>__populate_event_queue_from_trace\<close> and of \<^verbatim>\<open>register_alarm\<close>.\<close>

definition push_trace_events :: "event list \<Rightarrow> priority_queue \<Rightarrow> priority_queue" where
  "push_trace_events events q = foldl (\<lambda>q x. push x (timestamp x, TRACE) q) q events"

definition push_alarms :: "event list \<Rightarrow> priority_queue \<Rightarrow> priority_queue" where
  "push_alarms alarms q = foldl (\<lambda>q a. push a (timestamp a, ALARM) q) q alarms"

text \<open>A queue in which an alarm and a trace event carry the same timestamp: the trace event
  is pulled from the trace first, the alarm is registered after it.\<close>

definition tie_queue :: priority_queue where
  "tie_queue =
     event_queue (register_alarm (alarm_at 4 0 False)
       (populate_event_queue_from_trace (init\<lparr>trace_reader := [trace_event_at 4]\<rparr>)))"

definition two_event_trace :: simulator where
  "two_event_trace = init\<lparr>trace_reader := [trace_event_at 1, trace_event_at 2]\<rparr>"

text \<open>
  What the run loop relies on in its environment. A handler called with an event registers
  no alarm for a time before that event's timestamp; a fire action registers no alarm for
  a time before the alarm's timestamp, and does not move the timestamp of an alarm that is
  repeating afterwards back. Timestamps are compared as the queue compares them, an unset
  timestamp before every number.
\<close>

definition env_ok :: "env \<Rightarrow> bool" where
  "env_ok env =
     ((\<forall>h s e. \<forall>a \<in> set (handler_alarms env h s e). timestamp e \<le> timestamp a)
      \<and> (\<forall>s a. (repeating (fst (fire env s a)) \<longrightarrow> timestamp a \<le> timestamp (fst (fire env s a)))
            \<and> (\<forall>r \<in> set (snd (fire env s a)). timestamp a \<le> timestamp r)))"

text \<open>Every entry of the queue is keyed by the timestamp its event carries, as the pushes of the engine key it.\<close>

definition keyed_by_timestamp :: "priority_queue \<Rightarrow> bool" where
  "keyed_by_timestamp q = (\<forall>e \<in> set q. fst (fst e) = timestamp (snd e))"

text \<open>The queue is in order and keyed by timestamp, and none of its entries is earlier than a time in \<open>B\<close>.\<close>

definition queue_ok :: "int option set \<Rightarrow> priority_queue \<Rightarrow> bool" where
  "queue_ok B q =
     (queue_sorted q \<and> keyed_by_timestamp q \<and> (\<forall>e \<in> set q. \<forall>t \<in> B. t \<le> fst (fst e)))"

text \<open>
  The invariant of the run loop: the queue is in order and keyed by timestamp, the rest of
  the trace is in order, the clock values logged are in order, and nothing pending (in the
  queue or in the trace) is earlier than a clock value logged.
\<close>

definition run_inv :: "simulator \<Rightarrow> bool" where
  "run_inv s =
     (queue_ok (set (clock_log s)) (event_queue s)
      \<and> sorted (map timestamp (trace_reader s))
      \<and> (\<forall>x \<in> set (trace_reader s). \<forall>t \<in> set (clock_log s). t \<le> timestamp x)
      \<and> sorted (clock_log s))"

text \<open>The clock values logged are the timestamps of the events dispatched.\<close>

definition log_agrees :: "simulator \<Rightarrow> bool" where
  "log_agrees s = (clock_log s = map timestamp (dispatched s))"

text \<open>Two states with the same queue, trace, clock and dispatch log.\<close>

definition same_schedule :: "simulator \<Rightarrow> simulator \<Rightarrow> bool" where
  "same_schedule s s' =
     (event_queue s' = event_queue s \<and> trace_reader s' = trace_reader s
      \<and> clock_log s' = clock_log s \<and> dispatched s' = dispatched s
      \<and> current_time s' = current_time s)"

text \<open>Two states with the same trace, clock and dispatch log.\<close>

definition same_history :: "simulator \<Rightarrow> simulator \<Rightarrow> bool" where
  "same_history s s' =
     (trace_reader s' = trace_reader s \<and> clock_log s' = clock_log s
      \<and> dispatched s' = dispatched s \<and> current_time s' = current_time s)"

text \<open>
  An environment that keeps the contract: every handler registers one alarm for the tick
  after the event it is called with, and a fire action moves the alarm forward by its
  period (by nothing when the period is negative).
\<close>

definition forward_env :: env where
  "forward_env =
     \<lparr> handler_alarms =
         (\<lambda>h s e. case timestamp e of None \<Rightarrow> [] | Some t \<Rightarrow> [alarm_at (t + 1) 0 False]),
       fire = (\<lambda>s a. (a\<lparr>timestamp := map_option (\<lambda>t. t + max 0 (period a)) (timestamp a)\<rparr>, [])),
       py_int = (\<lambda>x. None) \<rparr>"

text \<open>A simulator with one handler subscribed to the type of the trace events, and the
  same with an alarm registered for time 3.\<close>

definition listening :: simulator where
  "listening = subscribe (DOMAIN 0) 7 None init"

definition listening_with_alarm :: simulator where
  "listening_with_alarm = register_alarm (alarm_at 3 0 False) listening"

section \<open>The module registry: theorems\<close>

lemma deque_at_upd: "deque_at (m(k \<mapsto> d)) k' = (if k' = k then d else deque_at m k')"
  by (simp add: deque_at_def)

text \<open>
  C7. \<^verbatim>\<open>register\<close> rejects an object that is not a simulation module with a type error,
  rejects a module whose name is already registered with the duplicate-module exception,
  and otherwise succeeds: the module is stored under its name, and put at the end (or,
  with \<open>override\<close>, at the front) of the sequence of its declared type; the sequences of
  the other types and all other fields of the simulator stay as they were.
\<close>

theorem register_outcomes:
  "register OtherObj override s = Inl (TypeError ''Expected SimModule object'')
   \<and> (sim_modules s (get_name m) \<noteq> None \<longrightarrow>
        register (SimModuleObj m) override s =
          Inl (Exception (''Module '' @ get_name m @ '' already exists'')))
   \<and> (sim_modules s (get_name m) = None \<longrightarrow>
        (\<exists>s'. register (SimModuleObj m) override s = Inr s'
           \<and> sim_modules s' = (sim_modules s)(get_name m \<mapsto> m)
           \<and> deque_at (module_type_map s') (EnumValue (type_value (get_type m))) =
               (if override
                then m # deque_at (module_type_map s) (EnumValue (type_value (get_type m)))
                else deque_at (module_type_map s) (EnumValue (type_value (get_type m))) @ [m])
           \<and> (\<forall>k. k \<noteq> EnumValue (type_value (get_type m)) \<longrightarrow>
                 module_type_map s' k = module_type_map s k)
           \<and> s'\<lparr>sim_modules := sim_modules s, module_type_map := module_type_map s\<rparr> = s))"
  by (simp add: register_def Let_def deque_at_upd)

theorem register_outcomes_witness:
  "register OtherObj True init = Inl (TypeError ''Expected SimModule object'')
   \<and> sim_modules init (get_name cpu_module) = None
   \<and> register (SimModuleObj cpu_module) True init = Inr cpu_registered
   \<and> deque_at (module_type_map cpu_registered) (EnumValue ''power'') = [cpu_module]
   \<and> sim_modules cpu_registered (get_name cpu_module) \<noteq> None
   \<and> register (SimModuleObj cpu_module) False cpu_registered =
        Inl (Exception ''Module cpu already exists'')"
  using register_outcomes [of True init cpu_module]
    register_outcomes [of False cpu_registered cpu_module]
  by (simp add: cpu_module_def cpu_registered_def init_def register_def deque_at_def)

lemma value_keyed_init: "value_keyed init"
  by (simp add: value_keyed_def init_def)

lemma value_keyed_register:
  "value_keyed s \<Longrightarrow> register obj override s = Inr s' \<Longrightarrow> value_keyed s'"
  by (auto simp: value_keyed_def register_def Let_def split: pyobject.splits if_splits)

lemma no_empty_deque_register:
  "no_empty_deque s \<Longrightarrow> register obj override s = Inr s' \<Longrightarrow> no_empty_deque s'"
  by (auto simp: no_empty_deque_def register_def Let_def split: pyobject.splits if_splits)

text \<open>
  With a plain enumeration the membership test of \<^verbatim>\<open>get_module_for_type\<close> never
  succeeds on a registry filled by \<^verbatim>\<open>register\<close>: the lookup returns none whatever is
  registered.
\<close>

lemma plain_enum_lookup_none:
  "value_keyed s \<Longrightarrow> get_module_for_type PlainEnum t s = (Inr None, s)"
  by (simp add: value_keyed_def get_module_for_type_def member_key_def)

text \<open>
  With an enumeration whose members compare equal to their values the lookup returns the
  first module of the type's sequence, and none when the sequence is empty.
\<close>

lemma mixin_enum_lookup:
  "no_empty_deque s \<Longrightarrow>
   fst (get_module_for_type ValueMixinEnum t s) =
     (case deque_at (module_type_map s) (EnumValue (type_value t)) of
        [] \<Rightarrow> Inr None | m # _ \<Rightarrow> Inr (Some m))"
  by (auto simp: no_empty_deque_def get_module_for_type_def member_key_def deque_at_def Let_def
      split: option.splits list.splits)

text \<open>
  C3. The claim is that \<^verbatim>\<open>get_module_for_type(t)\<close> returns the first module of the
  sequence of \<open>t\<close> when a module of type \<open>t\<close> is registered. The code at the input on
  which it fails: the module type is a plain enumeration, one module of type \<open>power\<close> is
  registered, its sequence is \<open>[cpu_module]\<close>, and the lookup of that type returns none.
\<close>

theorem plain_enum_lookup_after_register:
  "register (SimModuleObj cpu_module) False init = Inr cpu_registered
   \<and> deque_at (module_type_map cpu_registered) (EnumValue (type_value (get_type cpu_module)))
       = [cpu_module]
   \<and> get_module_for_type PlainEnum (get_type cpu_module) cpu_registered
       = (Inr None, cpu_registered)"
  by (simp add: register_def init_def cpu_module_def cpu_registered_def
      get_module_for_type_def member_key_def deque_at_def)

section \<open>The event bus: theorems\<close>


lemma register_alarms_eq:
  "register_alarms as s =
     s\<lparr>event_queue := foldl (\<lambda>q a. push a (timestamp a, ALARM) q) (event_queue s) as\<rparr>"
  by (induction as arbitrary: s) (simp_all add: register_alarms_def register_alarm_def)

lemma call_handler_invoked [simp]:
  "invoked (call_handler env h e s) = invoked s @ [(h, e)]"
  by (simp add: call_handler_def register_alarms_eq)

lemma call_handler_listeners [simp]:
  "event_listeners (call_handler env h e s) = event_listeners s"
  by (simp add: call_handler_def register_alarms_eq)

lemma notify_invoked:
  "invoked (notify env e ls s) =
     invoked s @ map (\<lambda>(f, h). (h, e)) (filter (\<lambda>(f, h). passes e f) ls)"
  by (induction ls arbitrary: s) auto

lemma notify_listeners [simp]: "event_listeners (notify env e ls s) = event_listeners s"
  by (induction ls arbitrary: s) auto

lemma subscribe_appends:
  "deque_at (event_listeners (subscribe t h f s)) t = deque_at (event_listeners s) t @ [(f, h)]"
  by (simp add: subscribe_def deque_at_def Let_def split: option.splits)

lemma broadcast_cases:
  "broadcast env e s = Inr (e', s') \<Longrightarrow>
     e' = (if truthy (timestamp e) then e else e\<lparr>timestamp := current_time s\<rparr>)
     \<and> s' = send_to_listeners env e' s \<and> event_type e' = event_type e"
  by (auto simp: broadcast_def Let_def split: if_splits)

text \<open>
  C6. When \<^verbatim>\<open>broadcast\<close> succeeds, the handler calls it makes are exactly the handlers of
  the pairs subscribed for the event's type whose filter is absent or returns true for the
  event, each called once with the (stamped) event, in the order of the subscription list;
  \<^verbatim>\<open>subscribe\<close> appends to that list, so when \<open>h1\<close> is subscribed before \<open>h2\<close> for the
  event's type and both filters pass, the call of \<open>h1\<close> comes right before that of \<open>h2\<close>.
\<close>

theorem broadcast_fan_out_order:
  "(broadcast env event s = Inr (event', s') \<longrightarrow>
      invoked s' = invoked s @ map (\<lambda>(f, h). (h, event'))
        (filter (\<lambda>(f, h). passes event' f) (deque_at (event_listeners s) (event_type event))))
   \<and> (broadcast env event (subscribe (event_type event) h2 f2 (subscribe (event_type event) h1 f1 s))
         = Inr (event', s') \<longrightarrow> passes event' f1 \<longrightarrow> passes event' f2 \<longrightarrow>
       (\<exists>before. invoked s' = before @ [(h1, event'), (h2, event')]))"
proof (intro conjI impI)
  assume b: "broadcast env event s = Inr (event', s')"
  from broadcast_cases [OF b] show "invoked s' = invoked s @ map (\<lambda>(f, h). (h, event'))
        (filter (\<lambda>(f, h). passes event' f) (deque_at (event_listeners s) (event_type event)))"
    by (simp add: send_to_listeners_def Let_def notify_invoked)
next
  let ?s2 = "subscribe (event_type event) h2 f2 (subscribe (event_type event) h1 f1 s)"
  assume b: "broadcast env event ?s2 = Inr (event', s')" and p: "passes event' f1" "passes event' f2"
  have l: "deque_at (event_listeners ?s2) (event_type event)
             = deque_at (event_listeners s) (event_type event) @ [(f1, h1), (f2, h2)]"
    by (simp add: subscribe_appends)
  from broadcast_cases [OF b] have "invoked s' = invoked ?s2 @ map (\<lambda>(f, h). (h, event'))
        (filter (\<lambda>(f, h). passes event' f) (deque_at (event_listeners ?s2) (event_type event)))"
    by (simp add: send_to_listeners_def Let_def notify_invoked)
  with l p show "\<exists>before. invoked s' = before @ [(h1, event'), (h2, event')]"
    by simp
qed

text \<open>
  C10. Broadcasting an event whose type has no subscription, when the timestamp check
  does not fail, returns without error and calls no handler; the subscription lists of
  all other event types are unchanged (the type itself now holds an empty list), and so
  is every other field of the simulator.
\<close>

theorem broadcast_no_subscribers:
  "deque_at (event_listeners s) (event_type event) = [] \<Longrightarrow>
   \<not> (truthy (timestamp event) \<and> timestamp event \<noteq> current_time s) \<Longrightarrow>
   \<exists>event' s'. broadcast env event s = Inr (event', s')
      \<and> invoked s' = invoked s
      \<and> (\<forall>t. t \<noteq> event_type event \<longrightarrow> event_listeners s' t = event_listeners s t)
      \<and> deque_at (event_listeners s') (event_type event) = []
      \<and> s'\<lparr>event_listeners := event_listeners s\<rparr> = s"
  by (auto simp: broadcast_def send_to_listeners_def Let_def deque_at_def)

text \<open>
  What \<^verbatim>\<open>broadcast\<close> does with the timestamp: an unset timestamp is stamped with the
  current time; a non-zero timestamp that differs from the current time fails; a timestamp
  equal to the current time passes.
\<close>

lemma broadcast_unset_stamps:
  "timestamp event = None \<Longrightarrow>
   broadcast env event s =
     Inr (event\<lparr>timestamp := current_time s\<rparr>,
          send_to_listeners env (event\<lparr>timestamp := current_time s\<rparr>) s)"
  by (simp add: broadcast_def truthy_def Let_def)

lemma broadcast_nonzero_mismatch:
  "timestamp event = Some t \<Longrightarrow> t \<noteq> 0 \<Longrightarrow> current_time s \<noteq> Some t \<Longrightarrow>
   broadcast env event s = Inl (Exception ''Broadcasting event with invalid timestamp.'')"
  by (auto simp add: broadcast_def truthy_def)

lemma broadcast_equal_ok:
  "timestamp event = current_time s \<Longrightarrow>
   broadcast env event s = Inr (event, send_to_listeners env event s)"
  by (cases event) (auto simp add: broadcast_def truthy_def Let_def)

text \<open>
  C2. The claim is that an event which already carries a timestamp that differs from the
  current time makes \<^verbatim>\<open>broadcast\<close> fail. The code at the input on which it does not: the
  event carries the timestamp 0, the current time is 5; \<^verbatim>\<open>if event.timestamp:\<close> takes 0
  for false, the event is stamped with 5 and delivered, and no error is raised.
\<close>

theorem broadcast_zero_timestamp_restamped:
  "timestamp (trace_event_at 0) = Some 0
   \<and> current_time (init\<lparr>current_time := Some 5\<rparr>) = Some 5
   \<and> broadcast env (trace_event_at 0) (init\<lparr>current_time := Some 5\<rparr>) =
       Inr (trace_event_at 5,
            init\<lparr>current_time := Some 5, event_listeners := [DOMAIN 0 \<mapsto> []]\<rparr>)"
  by (simp add: broadcast_def truthy_def trace_event_at_def init_def send_to_listeners_def
      deque_at_def)

theorem broadcast_fan_out_order_witness:
  "(\<exists>event' s'. broadcast quiet_env unstamped_event
        (subscribe (DOMAIN 0) 2 (Some zero_payload) (subscribe (DOMAIN 0) 1 None at_seven))
        = Inr (event', s')
      \<and> event' = trace_event_at 7
      \<and> passes event' None \<and> passes event' (Some zero_payload)
      \<and> invoked s' = [(1, event'), (2, event')])"
proof -
  let ?s2 = "subscribe (DOMAIN 0) 2 (Some zero_payload) (subscribe (DOMAIN 0) 1 None at_seven)"
  let ?s' = "send_to_listeners quiet_env (trace_event_at 7) ?s2"
  have t: "event_type unstamped_event = DOMAIN 0"
    by (simp add: unstamped_event_def)
  have b: "broadcast quiet_env unstamped_event ?s2 = Inr (trace_event_at 7, ?s')"
    by (simp add: broadcast_def truthy_def unstamped_event_def trace_event_at_def Let_def
        subscribe_def at_seven_def)
  have p: "passes (trace_event_at 7) None" "passes (trace_event_at 7) (Some zero_payload)"
    by (simp_all add: passes_def zero_payload_def trace_event_at_def)
  have i: "invoked ?s2 = []"
    by (simp add: subscribe_def at_seven_def init_def Let_def)
  have l: "deque_at (event_listeners ?s2) (DOMAIN 0) = [(None, 1), (Some zero_payload, 2)]"
    by (simp add: subscribe_appends) (simp add: deque_at_def at_seven_def init_def)
  from broadcast_fan_out_order [of quiet_env unstamped_event ?s2 "trace_event_at 7" ?s' 2
      "Some zero_payload" 1 None] b
  have "invoked ?s' = invoked ?s2 @ map (\<lambda>(f, h). (h, trace_event_at 7))
        (filter (\<lambda>(f, h). passes (trace_event_at 7) f)
          (deque_at (event_listeners ?s2) (event_type unstamped_event)))"
    by blast
  with p i l t have "invoked ?s' = [(1, trace_event_at 7), (2, trace_event_at 7)]"
    by simp
  with b p show ?thesis by blast
qed

theorem broadcast_no_subscribers_witness:
  "deque_at (event_listeners one_subscriber) (event_type (trace_event_at 7)) = []
   \<and> \<not> (truthy (timestamp (trace_event_at 7))
         \<and> timestamp (trace_event_at 7) \<noteq> current_time one_subscriber)
   \<and> (\<exists>event' s'. broadcast quiet_env (trace_event_at 7) one_subscriber = Inr (event', s')
         \<and> invoked s' = []
         \<and> event_listeners s' (DOMAIN 1) = Some [(None, 4)])"
proof -
  have d: "deque_at (event_listeners one_subscriber) (event_type (trace_event_at 7)) = []"
    by (simp add: one_subscriber_def subscribe_def at_seven_def init_def deque_at_def
        trace_event_at_def)
  have c: "\<not> (truthy (timestamp (trace_event_at 7))
         \<and> timestamp (trace_event_at 7) \<noteq> current_time one_subscriber)"
    by (simp add: one_subscriber_def subscribe_def at_seven_def init_def trace_event_at_def Let_def)
  have i: "invoked one_subscriber = []"
    by (simp add: one_subscriber_def subscribe_def at_seven_def init_def Let_def)
  have l: "event_listeners one_subscriber (DOMAIN 1) = Some [(None, 4)]"
    by (simp add: one_subscriber_def subscribe_def at_seven_def init_def Let_def)
  have n: "DOMAIN 1 \<noteq> event_type (trace_event_at 7)"
    by (simp add: trace_event_at_def)
  from broadcast_no_subscribers [OF d c, of quiet_env] i l n
  have "\<exists>event' s'. broadcast quiet_env (trace_event_at 7) one_subscriber = Inr (event', s')
         \<and> invoked s' = []
         \<and> event_listeners s' (DOMAIN 1) = Some [(None, 4)]"
    by metis
  with d c show ?thesis by blast
qed

section \<open>The debug controller: theorems\<close>


lemma split_space_not_Nil: "split_space c \<noteq> []"
  by (induction c) (simp_all split: list.splits)

lemma malformed_command:
  assumes "malformed env command"
  shows "\<exists>msg \<in> set usage_messages. \<forall>s. debug_command env command s = Inr (print_line msg s)"
proof -
  obtain cmd args where sp: "split_space command = cmd # args"
    using split_space_not_Nil [of command] by (cases "split_space command") simp_all
  from assms have
    "(cmd = ''interval'' \<and> (length args \<noteq> 1 \<or> py_int env (hd args) = None))
      \<or> (cmd = ''verbose'' \<and>
           (length args > 1 \<or> (length args = 1 \<and> hd args \<noteq> ''on'' \<and> hd args \<noteq> ''off'')))"
    by (simp add: malformed_def sp)
  then show ?thesis
  proof (elim disjE conjE)
    assume "cmd = ''interval''" "length args \<noteq> 1"
    then show ?thesis by (simp add: debug_command_def sp usage_messages_def)
  next
    assume "cmd = ''interval''" "py_int env (hd args) = None"
    then show ?thesis by (simp add: debug_command_def sp usage_messages_def)
  next
    assume "cmd = ''verbose''" "1 < length args"
    then show ?thesis by (cases args) (simp_all add: debug_command_def sp usage_messages_def)
  next
    assume "cmd = ''verbose''" "length args = 1" "hd args \<noteq> ''on''" "hd args \<noteq> ''off''"
    then show ?thesis by (cases args) (simp_all add: debug_command_def sp usage_messages_def)
  qed
qed

lemma malformed_not_empty: "malformed env command \<Longrightarrow> command \<noteq> []"
  by (auto simp: malformed_def)


text \<open>
  C8. For every malformed command (\<^verbatim>\<open>interval\<close> or \<^verbatim>\<open>verbose\<close> with a wrong number of
  arguments, \<^verbatim>\<open>interval\<close> with an argument that is not a number, \<^verbatim>\<open>verbose\<close> with an
  argument other than \<^verbatim>\<open>on\<close> and \<^verbatim>\<open>off\<close>) the controller prints one of the usage
  messages and changes nothing else, raises nothing, and goes on with the next prompt:
  the debug loop on the command followed by the rest of the input is the debug loop on
  the rest of the input, in a state that differs only by the prompt and the message
  written.
\<close>

theorem malformed_command_reprompts:
  "malformed env command \<Longrightarrow>
     \<exists>msg \<in> set usage_messages.
        (\<forall>s. debug_command env command s = Inr (print_line msg s))
      \<and> (\<forall>s rest. debug_loop env (command # rest) s =
            debug_loop env rest
              (s\<lparr>stdin := rest, stdout := stdout s @ [Prompt prompt, Line msg]\<rparr>))"
proof -
  assume m: "malformed env command"
  from malformed_command [OF m] obtain msg where msg: "msg \<in> set usage_messages"
      and c: "\<forall>s. debug_command env command s = Inr (print_line msg s)"
    by (elim bexE)
  have ne: "command \<noteq> []"
    by (rule malformed_not_empty [OF m])
  have "\<forall>s rest. debug_loop env (command # rest) s =
            debug_loop env rest
              (s\<lparr>stdin := rest, stdout := stdout s @ [Prompt prompt, Line msg]\<rparr>)"
    by (simp add: Let_def ne c and_then_def print_line_def)
  with c have "(\<forall>s. debug_command env command s = Inr (print_line msg s))
      \<and> (\<forall>s rest. debug_loop env (command # rest) s =
            debug_loop env rest
              (s\<lparr>stdin := rest, stdout := stdout s @ [Prompt prompt, Line msg]\<rparr>))"
    by (intro conjI)
  with msg show ?thesis by (rule bexI [rotated])
qed


theorem malformed_command_reprompts_witness:
  "malformed quiet_env ''interval x''
   \<and> debug quiet_env (init\<lparr>stdin := [''interval x'', []]\<rparr>) =
       Inr (init\<lparr>stdin := [],
                 stdout := [Prompt prompt, Line usage_interval, Prompt prompt]\<rparr>)"
proof -
  let ?s0 = "init\<lparr>stdin := [''interval x'', []]\<rparr>"
  have m: "malformed quiet_env ''interval x''"
    by (simp add: malformed_def quiet_env_def)
  have u: "debug_command quiet_env ''interval x'' init = Inr (print_line usage_interval init)"
    by (simp add: debug_command_def quiet_env_def)
  from malformed_command_reprompts [OF m] obtain msg where
        c: "\<forall>s. debug_command quiet_env ''interval x'' s = Inr (print_line msg s)"
    and l: "\<forall>s rest. debug_loop quiet_env (''interval x'' # rest) s =
            debug_loop quiet_env rest
              (s\<lparr>stdin := rest, stdout := stdout s @ [Prompt prompt, Line msg]\<rparr>)"
    by (elim bexE conjE)
  from c [rule_format, of init] u
  have "print_line msg init = print_line usage_interval init"
    by simp
  then have e: "msg = usage_interval"
    by (simp add: print_line_def init_def)
  have "debug quiet_env ?s0 = debug_loop quiet_env (''interval x'' # [[]]) ?s0"
    by (simp add: debug_def del: debug_loop.simps)
  also from l [rule_format, of "[[]]" ?s0]
  have "\<dots> = debug_loop quiet_env [[]]
        (?s0\<lparr>stdin := [[]], stdout := stdout ?s0 @ [Prompt prompt, Line msg]\<rparr>)"
    .
  also have "\<dots> = Inr (init\<lparr>stdin := [],
                 stdout := [Prompt prompt, Line usage_interval, Prompt prompt]\<rparr>)"
    by (simp add: e init_def)
  finally show ?thesis
    using m by (intro conjI)
qed

section \<open>The event queue and the refill: theorems\<close>


lemma set_push [simp]: "set (push x k q) = insert (k, x) (set q)"
  by (induction x k q rule: push.induct) (simp_all add: insert_commute)

lemma length_push [simp]: "length (push x k q) = Suc (length q)"
  by (induction x k q rule: push.induct) simp_all

lemma queue_sorted_Cons:
  "queue_sorted ((k, x) # q) \<longleftrightarrow> (\<forall>e \<in> set q. k \<le> fst e) \<and> queue_sorted q"
  by (simp add: queue_sorted_def)

lemma queue_sorted_push: "queue_sorted q \<Longrightarrow> queue_sorted (push x k q)"
proof (induction x k q rule: push.induct)
  case (1 x k)
  show ?case by (simp add: queue_sorted_def)
next
  case (2 x k k' y q)
  from "2.prems" have le: "\<forall>e \<in> set q. k' \<le> fst e" and sq: "queue_sorted q"
    by (simp_all add: queue_sorted_Cons)
  show ?case
  proof (cases "k < k'")
    case True
    then have "k \<le> k'" by (rule less_imp_le)
    with le have "\<forall>e \<in> set ((k', y) # q). k \<le> fst e"
      by (auto intro: order_trans)
    with "2.prems" have "queue_sorted ((k, x) # (k', y) # q)"
      by (simp add: queue_sorted_Cons)
    with True show ?thesis by simp
  next
    case False
    then have kk: "k' \<le> k" by (simp add: not_less)
    from False sq have "queue_sorted (push x k q)" by (rule "2.IH")
    moreover from le kk have "\<forall>e \<in> set (push x k q). k' \<le> fst e"
      by simp
    ultimately have "queue_sorted ((k', y) # push x k q)"
      by (simp add: queue_sorted_Cons)
    with False show ?thesis by simp
  qed
qed

lemma set_push_trace_events:
  "set (push_trace_events events q) = set q \<union> (\<lambda>x. ((timestamp x, TRACE), x)) ` set events"
  unfolding push_trace_events_def by (induction events arbitrary: q) auto

lemma length_push_trace_events:
  "length (push_trace_events events q) = length q + length events"
  unfolding push_trace_events_def by (induction events arbitrary: q) auto

lemma queue_sorted_push_trace_events:
  "queue_sorted q \<Longrightarrow> queue_sorted (push_trace_events events q)"
  unfolding push_trace_events_def by (induction events arbitrary: q) (auto simp: queue_sorted_push)

lemma set_push_alarms:
  "set (push_alarms alarms q) = set q \<union> (\<lambda>x. ((timestamp x, ALARM), x)) ` set alarms"
  unfolding push_alarms_def by (induction alarms arbitrary: q) auto

lemma queue_sorted_push_alarms:
  "queue_sorted q \<Longrightarrow> queue_sorted (push_alarms alarms q)"
  unfolding push_alarms_def by (induction alarms arbitrary: q) (auto simp: queue_sorted_push)

lemma populate_eq:
  "populate_event_queue_from_trace s =
     s\<lparr>trace_reader := drop 100 (trace_reader s),
       event_queue := push_trace_events (take 100 (trace_reader s)) (event_queue s)\<rparr>"
  by (simp add: populate_event_queue_from_trace_def get_events_def EVENT_QUEUE_THRESHOLD_def
      push_trace_events_def)

lemma alarm_key_less_trace_key: "((t, ALARM) :: sort_key) < (t, TRACE)"
  by (simp add: ALARM_def TRACE_def)

text \<open>
  C9. In a queue that holds an alarm entry and a trace entry of equal timestamp, the
  alarm entry comes first: the next \<^verbatim>\<open>pop\<close> returns an entry whose key is at most the
  alarm's key \<open>(t, 5)\<close> and strictly below the trace entry's key \<open>(t, 10)\<close>, and leaves
  the trace entry in the queue, so the trace entry is popped only after the alarm entry;
  and in the order in which the entries are popped the alarm entry stands before the
  trace entry.
\<close>

theorem alarm_popped_before_trace:
  "queue_sorted q \<Longrightarrow> ((t, ALARM), a) \<in> set q \<Longrightarrow> ((t, TRACE), x) \<in> set q \<Longrightarrow>
     (\<exists>k e q'. q = (k, e) # q' \<and> pop q = Inr (e, q') \<and> peek q = Inr e
         \<and> k \<le> (t, ALARM) \<and> k < (t, TRACE)
         \<and> ((t, TRACE), x) \<in> set q' \<and> queue_sorted q')
   \<and> (\<forall>i j. i < length q \<longrightarrow> j < length q \<longrightarrow> q ! i = ((t, ALARM), a) \<longrightarrow>
          q ! j = ((t, TRACE), x) \<longrightarrow> i < j)"
proof (intro conjI allI impI)
  assume s: "queue_sorted q" and a: "((t, ALARM), a) \<in> set q" and x: "((t, TRACE), x) \<in> set q"
  from a obtain k e q' where q: "q = (k, e) # q'"
    by (cases q) auto
  from s q have le: "\<forall>e \<in> set q'. k \<le> fst e" and s': "queue_sorted q'"
    by (simp_all add: queue_sorted_Cons)
  from a q le have ka: "k \<le> (t, ALARM)"
    by auto
  from ka alarm_key_less_trace_key [of t] have kt: "k < (t, TRACE)"
    by (rule le_less_trans)
  with x q have "((t, TRACE), x) \<in> set q'"
    by auto
  with q ka kt s' show "\<exists>k e q'. q = (k, e) # q' \<and> pop q = Inr (e, q') \<and> peek q = Inr e
         \<and> k \<le> (t, ALARM) \<and> k < (t, TRACE)
         \<and> ((t, TRACE), x) \<in> set q' \<and> queue_sorted q'"
    by (simp add: pop_def peek_def)
next
  fix i j
  assume s: "queue_sorted q" and i: "i < length q" and j: "j < length q"
    and qi: "q ! i = ((t, ALARM), a)" and qj: "q ! j = ((t, TRACE), x)"
  show "i < j"
  proof (rule ccontr)
    assume "\<not> i < j"
    then have "j \<le> i" by simp
    with s i have "map fst q ! j \<le> map fst q ! i"
      unfolding queue_sorted_def by (intro sorted_nth_mono) simp_all
    with i j qi qj have "((t, TRACE) :: sort_key) \<le> (t, ALARM)"
      by (simp del: less_eq_prod_simp)
    then show False
      by (simp add: ALARM_def TRACE_def)
  qed
qed


theorem alarm_popped_before_trace_witness:
  "queue_sorted tie_queue
   \<and> ((Some 4, ALARM), alarm_at 4 0 False) \<in> set tie_queue
   \<and> ((Some 4, TRACE), trace_event_at 4) \<in> set tie_queue
   \<and> pop tie_queue = Inr (alarm_at 4 0 False, [((Some 4, TRACE), trace_event_at 4)])"
proof -
  have q: "tie_queue =
      [((Some 4, ALARM), alarm_at 4 0 False), ((Some 4, TRACE), trace_event_at 4)]"
    by (simp add: tie_queue_def register_alarm_def populate_eq push_trace_events_def init_def
        alarm_at_def trace_event_at_def ALARM_def TRACE_def)
  have s: "queue_sorted tie_queue"
    by (simp add: q queue_sorted_def ALARM_def TRACE_def)
  have a: "((Some 4, ALARM), alarm_at 4 0 False) \<in> set tie_queue"
    and x: "((Some 4, TRACE), trace_event_at 4) \<in> set tie_queue"
    by (simp_all add: q)
  from alarm_popped_before_trace [OF s a x]
  have "\<exists>k e q'. tie_queue = (k, e) # q' \<and> pop tie_queue = Inr (e, q')"
    by (elim conjE exE) (intro exI conjI, assumption+)
  then have "pop tie_queue = Inr (alarm_at 4 0 False, [((Some 4, TRACE), trace_event_at 4)])"
    by (simp add: q pop_def)
  with s a x show ?thesis by (intro conjI)
qed

text \<open>
  C4. A pass through the loop body in a state whose queue holds fewer than 100 entries and
  whose trace is not exhausted pulls the next events of the trace, at least one and at
  most 100, pushes each into the queue under the key (its own timestamp, \<open>TRACE\<close>), and
  ends there: nothing is dispatched, the clock is not set, no handler is called and no
  alarm is fired, and only the queue and the trace reader change.
\<close>

theorem refill_step:
  "size_queue (event_queue s) < 100 \<Longrightarrow> \<not> end_of_trace (trace_reader s) \<Longrightarrow>
   \<exists>s'. step env s = Inr s'
     \<and> take 100 (trace_reader s) \<noteq> [] \<and> length (take 100 (trace_reader s)) \<le> 100
     \<and> trace_reader s' = drop 100 (trace_reader s)
     \<and> event_queue s' =
         foldl (\<lambda>q x. push x (timestamp x, TRACE) q) (event_queue s) (take 100 (trace_reader s))
     \<and> set (event_queue s') =
         set (event_queue s) \<union> (\<lambda>x. ((timestamp x, TRACE), x)) ` set (take 100 (trace_reader s))
     \<and> length (event_queue s') = length (event_queue s) + length (take 100 (trace_reader s))
     \<and> dispatched s' = dispatched s \<and> clock_log s' = clock_log s
     \<and> current_time s' = current_time s \<and> invoked s' = invoked s \<and> fired s' = fired s
     \<and> s'\<lparr>event_queue := event_queue s, trace_reader := trace_reader s\<rparr> = s"
proof -
  assume a: "size_queue (event_queue s) < 100" and b: "\<not> end_of_trace (trace_reader s)"
  then have st: "step env s = Inr (populate_event_queue_from_trace s)"
    by (simp add: step_def EVENT_QUEUE_THRESHOLD_def)
  from b have ne: "take 100 (trace_reader s) \<noteq> []"
    by (simp add: end_of_trace_def)
  show ?thesis
    unfolding st populate_eq
    using ne
    by (simp add: set_push_trace_events length_push_trace_events)
      (simp add: push_trace_events_def)
qed

theorem refill_step_witness:
  "size_queue (event_queue two_event_trace) < 100
   \<and> \<not> end_of_trace (trace_reader two_event_trace)
   \<and> step quiet_env two_event_trace =
       Inr (two_event_trace\<lparr>trace_reader := [],
              event_queue := [((Some 1, TRACE), trace_event_at 1),
                              ((Some 2, TRACE), trace_event_at 2)]\<rparr>)"
proof -
  have a: "size_queue (event_queue two_event_trace) < 100"
    by (simp add: two_event_trace_def init_def size_queue_def)
  have b: "\<not> end_of_trace (trace_reader two_event_trace)"
    by (simp add: two_event_trace_def end_of_trace_def)
  from refill_step [OF a b, of quiet_env] obtain s' where
      st: "step quiet_env two_event_trace = Inr s'"
    and tr: "trace_reader s' = drop 100 (trace_reader two_event_trace)"
    and q: "event_queue s' = foldl (\<lambda>q x. push x (timestamp x, TRACE) q)
        (event_queue two_event_trace) (take 100 (trace_reader two_event_trace))"
    and fr: "s'\<lparr>event_queue := event_queue two_event_trace,
               trace_reader := trace_reader two_event_trace\<rparr> = two_event_trace"
    by (elim exE conjE)
  have "s' = (s'\<lparr>event_queue := event_queue two_event_trace,
               trace_reader := trace_reader two_event_trace\<rparr>)
            \<lparr>event_queue := event_queue s', trace_reader := trace_reader s'\<rparr>"
    by simp
  also have "\<dots> = two_event_trace\<lparr>event_queue := event_queue s', trace_reader := trace_reader s'\<rparr>"
    by (simp only: fr)
  also have "\<dots> = two_event_trace\<lparr>trace_reader := [],
              event_queue := [((Some 1, TRACE), trace_event_at 1),
                              ((Some 2, TRACE), trace_event_at 2)]\<rparr>"
    by (simp add: tr q two_event_trace_def init_def trace_event_at_def TRACE_def)
  finally show ?thesis
    using a b st by simp
qed

section \<open>Alarms: theorems\<close>


lemma register_alarms_push_alarms:
  "register_alarms as s = s\<lparr>event_queue := push_alarms as (event_queue s)\<rparr>"
  by (simp add: register_alarms_eq push_alarms_def)

lemma fire_alarm_eq:
  "fire env s a = (a', registered) \<Longrightarrow>
   fire_alarm env a s =
     (a', s\<lparr>fired := fired s @ [a], event_queue := push_alarms registered (event_queue s)\<rparr>)"
  by (simp add: fire_alarm_def register_alarms_push_alarms)

text \<open>
  C5. Executing an alarm-typed event invokes the alarm's fire action and calls no handler
  of the bus. If the alarm is repeating after the fire action, it is pushed into the queue
  again under the key (its timestamp after the fire action, \<open>ALARM\<close>); when the fire
  action has advanced the timestamp from \<open>T\<close> to \<open>T + P\<close>, the entry pushed is keyed
  \<open>(T + P, ALARM)\<close>, which is the time at which it will be dispatched. If the alarm is not
  repeating the engine pushes nothing: the queue holds only what the fire action itself
  registered. Nothing but the queue and the log of fired alarms changes.
\<close>

theorem execute_alarm_event:
  "event_type a = SIM_ALARM \<Longrightarrow> fire env s a = (a', registered) \<Longrightarrow>
   \<exists>s'. execute_event env a s = Inr s'
      \<and> fired s' = fired s @ [a]
      \<and> invoked s' = invoked s
      \<and> event_queue s' =
          (if repeating a'
           then push a' (timestamp a', ALARM) (push_alarms registered (event_queue s))
           else push_alarms registered (event_queue s))
      \<and> (repeating a' \<longrightarrow> ((timestamp a', ALARM), a') \<in> set (event_queue s'))
      \<and> (repeating a' \<longrightarrow> timestamp a = Some T \<longrightarrow> timestamp a' = Some (T + P) \<longrightarrow>
            ((Some (T + P), ALARM), a') \<in> set (event_queue s'))
      \<and> (\<not> repeating a' \<longrightarrow> event_queue s' = push_alarms registered (event_queue s))
      \<and> s'\<lparr>fired := fired s, event_queue := event_queue s\<rparr> = s"
proof -
  assume t: "event_type a = SIM_ALARM" and f: "fire env s a = (a', registered)"
  show ?thesis
  proof (cases "repeating a'")
    case True
    with t have "execute_event env a s =
        Inr (s\<lparr>fired := fired s @ [a],
               event_queue := push a' (timestamp a', ALARM)
                 (push_alarms registered (event_queue s))\<rparr>)"
      by (simp add: execute_event_def fire_alarm_eq [OF f])
    with True show ?thesis by simp
  next
    case False
    with t have "execute_event env a s =
        Inr (s\<lparr>fired := fired s @ [a],
               event_queue := push_alarms registered (event_queue s)\<rparr>)"
      by (simp add: execute_event_def fire_alarm_eq [OF f])
    with False show ?thesis by simp
  qed
qed

theorem execute_alarm_event_witness:
  "event_type (alarm_at 10 5 True) = SIM_ALARM
   \<and> fire quiet_env init (alarm_at 10 5 True) = (alarm_at 15 5 True, [])
   \<and> repeating (alarm_at 15 5 True)
   \<and> timestamp (alarm_at 10 5 True) = Some 10
   \<and> timestamp (alarm_at 15 5 True) = Some (10 + 5)
   \<and> (\<exists>s'. execute_event quiet_env (alarm_at 10 5 True) init = Inr s'
         \<and> event_queue s' = [((Some 15, ALARM), alarm_at 15 5 True)]
         \<and> invoked s' = [] \<and> fired s' = [alarm_at 10 5 True])
   \<and> event_type (alarm_at 10 5 False) = SIM_ALARM
   \<and> fire quiet_env init (alarm_at 10 5 False) = (alarm_at 15 5 False, [])
   \<and> \<not> repeating (alarm_at 15 5 False)
   \<and> (\<exists>s'. execute_event quiet_env (alarm_at 10 5 False) init = Inr s' \<and> event_queue s' = [])"
proof -
  have t: "event_type (alarm_at 10 5 r) = SIM_ALARM" for r
    by (simp add: alarm_at_def)
  have f: "fire quiet_env init (alarm_at 10 5 r) = (alarm_at 15 5 r, [])" for r
    by (simp add: quiet_env_def advance_def alarm_at_def)
  have r: "repeating (alarm_at 15 5 True)" "\<not> repeating (alarm_at 15 5 False)"
    by (simp_all add: alarm_at_def)
  have ts: "timestamp (alarm_at 10 5 True) = Some 10"
    "timestamp (alarm_at 15 5 True) = Some (10 + 5)"
    by (simp_all add: alarm_at_def)
  have i: "event_queue init = []" "invoked init = []" "fired init = []"
    by (simp_all add: init_def)
  from execute_alarm_event [OF t f, of True 10 5] r i ts
  have 1: "\<exists>s'. execute_event quiet_env (alarm_at 10 5 True) init = Inr s'
         \<and> event_queue s' = [((Some 15, ALARM), alarm_at 15 5 True)]
         \<and> invoked s' = [] \<and> fired s' = [alarm_at 10 5 True]"
    by (simp add: push_alarms_def) (elim exE conjE, intro exI conjI, assumption+)
  from execute_alarm_event [OF t f, of False 10 5] r i
  have 2: "\<exists>s'. execute_event quiet_env (alarm_at 10 5 False) init = Inr s' \<and> event_queue s' = []"
    by (simp add: push_alarms_def) (elim exE conjE, intro exI conjI, assumption+)
  from t f r ts 1 2 show ?thesis by (intro conjI)
qed

section \<open>The run loop: theorems\<close>


lemma same_schedule_refl [simp]: "same_schedule s s"
  by (simp add: same_schedule_def)

lemma same_schedule_trans:
  "same_schedule s s' \<Longrightarrow> same_schedule s' s'' \<Longrightarrow> same_schedule s s''"
  by (simp add: same_schedule_def)

lemma debug_command_same_schedule:
  assumes "debug_command env command s = Inr s'"
  shows "same_schedule s s'"
proof -
  obtain cmd args where sp: "split_space command = cmd # args"
    using split_space_not_Nil [of command] by (cases "split_space command") simp_all
  show ?thesis
  proof (cases "cmd = ''interval''")
    case True
    with assms show ?thesis
      by (auto simp add: debug_command_def sp print_line_def same_schedule_def
          split: if_splits option.splits)
  next
    case False
    note ni = this
    show ?thesis
    proof (cases "cmd = ''verbose''")
      case True
      with assms show ?thesis
        by (cases args)
          (auto simp add: debug_command_def sp print_line_def same_schedule_def
            split: if_splits)
    next
      case False
      with ni assms show ?thesis
        by (auto simp add: debug_command_def sp same_schedule_def split: if_splits)
    qed
  qed
qed

lemma debug_loop_same_schedule:
  "debug_loop env ls s = Inr s' \<Longrightarrow> same_schedule s s'"
proof (induction ls arbitrary: s)
  case Nil
  then show ?case by simp
next
  case (Cons c ls)
  let ?s0 = "s\<lparr>stdin := ls, stdout := stdout s @ [Prompt prompt]\<rparr>"
  have s0: "same_schedule s ?s0"
    by (simp add: same_schedule_def)
  show ?case
  proof (cases "c = []")
    case True
    with Cons.prems have "s' = ?s0" by (simp add: Let_def)
    with s0 show ?thesis by simp
  next
    case False
    with Cons.prems obtain s1 where c: "debug_command env c ?s0 = Inr s1"
        and l: "debug_loop env ls s1 = Inr s'"
      by (cases "debug_command env c ?s0") (simp_all add: Let_def and_then_def)
    from debug_command_same_schedule [OF c] Cons.IH [OF l] s0
    show ?thesis by (blast intro: same_schedule_trans)
  qed
qed

lemma debug_same_schedule: "debug env s = Inr s' \<Longrightarrow> same_schedule s s'"
  unfolding debug_def by (rule debug_loop_same_schedule)

lemma debug_break_same_schedule: "debug_break env s = Inr s' \<Longrightarrow> same_schedule s s'"
proof -
  assume a: "debug_break env s = Inr s'"
  let ?s1 = "s\<lparr>debug_interval_cnt := debug_interval_cnt s + 1\<rparr>"
  have s1: "same_schedule s ?s1" by (simp add: same_schedule_def)
  show ?thesis
  proof (cases "debug_mode s \<and> debug_interval_cnt ?s1 = debug_interval ?s1")
    case True
    with a obtain s2 where d: "debug env ?s1 = Inr s2" and e: "s' = s2\<lparr>debug_interval_cnt := 0\<rparr>"
      by (cases "debug env ?s1") (auto simp add: debug_break_def Let_def and_then_def)
    from debug_same_schedule [OF d] s1 have "same_schedule s s2"
      by (blast intro: same_schedule_trans)
    with e show ?thesis by (simp add: same_schedule_def)
  next
    case False
    with a have "s' = s \<or> s' = ?s1"
      by (auto simp add: debug_break_def Let_def split: if_splits)
    with s1 show ?thesis by auto
  qed
qed


lemma fst_key_mono: "(k :: sort_key) \<le> k' \<Longrightarrow> fst k \<le> fst k'"
  by (auto simp: less_eq_prod_def)

lemma queue_ok_push:
  assumes "queue_ok B q" and "\<forall>t \<in> B. t \<le> timestamp x"
  shows "queue_ok B (push x (timestamp x, p) q)"
proof -
  from assms(1) have s: "queue_sorted q" and k: "keyed_by_timestamp q"
    and b: "\<forall>e \<in> set q. \<forall>t \<in> B. t \<le> fst (fst e)"
    by (simp_all add: queue_ok_def)
  from s have "queue_sorted (push x (timestamp x, p) q)"
    by (rule queue_sorted_push)
  moreover from k have "keyed_by_timestamp (push x (timestamp x, p) q)"
    by (simp add: keyed_by_timestamp_def)
  moreover from b assms(2)
  have "\<forall>e \<in> set (push x (timestamp x, p) q). \<forall>t \<in> B. t \<le> fst (fst e)"
    by simp
  ultimately show ?thesis
    by (simp only: queue_ok_def simp_thms)
qed

lemma queue_ok_push_alarms:
  "queue_ok B q \<Longrightarrow> \<forall>a \<in> set as. \<forall>t \<in> B. t \<le> timestamp a \<Longrightarrow> queue_ok B (push_alarms as q)"
proof (induction as arbitrary: q)
  case Nil
  then show ?case by (simp add: push_alarms_def)
next
  case (Cons a as)
  from Cons.prems have "queue_ok B (push a (timestamp a, ALARM) q)"
    by (intro queue_ok_push) simp_all
  with Cons.prems have "queue_ok B (push_alarms as (push a (timestamp a, ALARM) q))"
    by (intro Cons.IH) simp_all
  then show ?case by (simp add: push_alarms_def)
qed

lemma queue_ok_push_trace_events:
  "queue_ok B q \<Longrightarrow> \<forall>a \<in> set xs. \<forall>t \<in> B. t \<le> timestamp a \<Longrightarrow>
     queue_ok B (push_trace_events xs q)"
proof (induction xs arbitrary: q)
  case Nil
  then show ?case by (simp add: push_trace_events_def)
next
  case (Cons a xs)
  from Cons.prems have "queue_ok B (push a (timestamp a, TRACE) q)"
    by (intro queue_ok_push) simp_all
  with Cons.prems have "queue_ok B (push_trace_events xs (push a (timestamp a, TRACE) q))"
    by (intro Cons.IH) simp_all
  then show ?case by (simp add: push_trace_events_def)
qed

lemma same_history_refl [simp]: "same_history s s"
  by (simp add: same_history_def)

lemma same_history_trans:
  "same_history s s' \<Longrightarrow> same_history s' s'' \<Longrightarrow> same_history s s''"
  by (simp add: same_history_def)

lemma same_schedule_history: "same_schedule s s' \<Longrightarrow> same_history s s'"
  by (simp add: same_schedule_def same_history_def)

lemma call_handler_queue:
  "event_queue (call_handler env h e s) = push_alarms (handler_alarms env h s e) (event_queue s)"
  by (simp add: call_handler_def register_alarms_push_alarms)

lemma call_handler_history: "same_history s (call_handler env h e s)"
  by (simp add: call_handler_def register_alarms_push_alarms same_history_def)

lemma call_handler_queue_ok:
  assumes "env_ok env" and "queue_ok B (event_queue s)" and "\<forall>t \<in> B. t \<le> timestamp e"
  shows "queue_ok B (event_queue (call_handler env h e s))"
proof -
  from assms(1) have "\<forall>a \<in> set (handler_alarms env h s e). timestamp e \<le> timestamp a"
    by (simp add: env_ok_def)
  with assms(3) have "\<forall>a \<in> set (handler_alarms env h s e). \<forall>t \<in> B. t \<le> timestamp a"
    by (blast intro: order_trans)
  with assms(2) show ?thesis
    by (simp add: call_handler_queue queue_ok_push_alarms)
qed

lemma notify_queue_ok:
  "env_ok env \<Longrightarrow> queue_ok B (event_queue s) \<Longrightarrow> \<forall>t \<in> B. t \<le> timestamp e \<Longrightarrow>
     queue_ok B (event_queue (notify env e ls s)) \<and> same_history s (notify env e ls s)"
proof (induction ls arbitrary: s)
  case Nil
  then show ?case by simp
next
  case (Cons l ls)
  obtain f h where l: "l = (f, h)" by (cases l)
  show ?case
  proof (cases "passes e f")
    case True
    from Cons.prems have "queue_ok B (event_queue (call_handler env h e s))"
      by (rule call_handler_queue_ok)
    with Cons.prems have "queue_ok B (event_queue (notify env e ls (call_handler env h e s)))
        \<and> same_history (call_handler env h e s) (notify env e ls (call_handler env h e s))"
      by (intro Cons.IH)
    with True l call_handler_history [of s env h e] show ?thesis
      by (auto intro: same_history_trans)
  next
    case False
    with l Cons.IH [OF Cons.prems] show ?thesis by simp
  qed
qed

lemma send_to_listeners_queue_ok:
  "env_ok env \<Longrightarrow> queue_ok B (event_queue s) \<Longrightarrow> \<forall>t \<in> B. t \<le> timestamp e \<Longrightarrow>
     queue_ok B (event_queue (send_to_listeners env e s))
     \<and> same_history s (send_to_listeners env e s)"
proof -
  assume a: "env_ok env" "queue_ok B (event_queue s)" "\<forall>t \<in> B. t \<le> timestamp e"
  let ?ls = "deque_at (event_listeners s) (event_type e)"
  let ?s1 = "s\<lparr>event_listeners := (event_listeners s)(event_type e \<mapsto> ?ls)\<rparr>"
  from a have "queue_ok B (event_queue ?s1)" by simp
  with a have "queue_ok B (event_queue (notify env e ?ls ?s1))
      \<and> same_history ?s1 (notify env e ?ls ?s1)"
    by (intro notify_queue_ok)
  moreover have "same_history s ?s1" by (simp add: same_history_def)
  ultimately show ?thesis
    by (auto simp add: send_to_listeners_def Let_def intro: same_history_trans)
qed

lemma restamp_same: "timestamp e = t \<Longrightarrow> e\<lparr>timestamp := t\<rparr> = e"
  by (cases e) simp

lemma broadcast_queue_ok:
  assumes "env_ok env" and "queue_ok B (event_queue s)" and "\<forall>t \<in> B. t \<le> timestamp e"
    and "timestamp e = current_time s" and "broadcast env e s = Inr (e', s')"
  shows "queue_ok B (event_queue s') \<and> same_history s s'"
proof -
  from assms(4) have r: "e\<lparr>timestamp := current_time s\<rparr> = e"
    by (intro restamp_same)
  from assms(5) have "s' = send_to_listeners env e s"
    by (auto simp add: broadcast_def Let_def r split: if_splits)
  with send_to_listeners_queue_ok [OF assms(1,2,3)] show ?thesis by simp
qed


lemma execute_event_queue_ok:
  assumes env: "env_ok env" and q: "queue_ok B (event_queue s)"
    and b: "\<forall>t \<in> B. t \<le> timestamp e"
    and now: "timestamp e = current_time s" and ex: "execute_event env e s = Inr s'"
  shows "queue_ok B (event_queue s') \<and> same_history s s'"
proof (cases "event_type e = SIM_DEBUG")
  case True
  with ex have "debug env s = Inr s'" by (simp add: execute_event_def)
  then have "same_schedule s s'" by (rule debug_same_schedule)
  with q show ?thesis by (simp add: same_schedule_def same_history_def)
next
  case False
  note nd = this
  show ?thesis
  proof (cases "event_type e = SIM_ALARM")
    case True
    obtain e' regs where f: "fire env s e = (e', regs)" by (cases "fire env s e")
    let ?q1 = "push_alarms regs (event_queue s)"
    let ?s1 = "s\<lparr>fired := fired s @ [e], event_queue := ?q1\<rparr>"
    from env f have r: "\<forall>a \<in> set regs. timestamp e \<le> timestamp a"
      and a: "repeating e' \<longrightarrow> timestamp e \<le> timestamp e'"
      unfolding env_ok_def by (metis snd_conv, metis fst_conv)
    from r b have "\<forall>a \<in> set regs. \<forall>t \<in> B. t \<le> timestamp a"
      by (blast intro: order_trans)
    with q have q1: "queue_ok B ?q1" by (rule queue_ok_push_alarms)
    show ?thesis
    proof (cases "repeating e'")
      case True
      with a b have "\<forall>t \<in> B. t \<le> timestamp e'" by (blast intro: order_trans)
      with q1 have "queue_ok B (push e' (timestamp e', ALARM) ?q1)" by (rule queue_ok_push)
      moreover from True \<open>event_type e = SIM_ALARM\<close> ex
      have "s' = ?s1\<lparr>event_queue := push e' (timestamp e', ALARM) ?q1\<rparr>"
        by (simp add: execute_event_def fire_alarm_eq [OF f])
      ultimately show ?thesis by (simp add: same_history_def)
    next
      case False
      with \<open>event_type e = SIM_ALARM\<close> ex have "s' = ?s1"
        by (simp add: execute_event_def fire_alarm_eq [OF f])
      with q1 show ?thesis by (simp add: same_history_def)
    qed
  next
    case False
    with nd ex obtain e' where "broadcast env e s = Inr (e', s')"
      by (cases "broadcast env e s") (auto simp add: execute_event_def and_then_def)
    with env q b now show ?thesis by (rule broadcast_queue_ok)
  qed
qed

lemma run_inv_same_schedule: "same_schedule s s' \<Longrightarrow> run_inv s \<Longrightarrow> run_inv s'"
  by (simp add: same_schedule_def run_inv_def)

lemma run_inv_populate:
  assumes "run_inv s"
  shows "run_inv (populate_event_queue_from_trace s)"
proof -
  let ?B = "set (clock_log s)"
  let ?xs = "take 100 (trace_reader s)"
  from assms have q: "queue_ok ?B (event_queue s)"
    and st: "sorted (map timestamp (trace_reader s))"
    and tb: "\<forall>x \<in> set (trace_reader s). \<forall>t \<in> ?B. t \<le> timestamp x"
    and sc: "sorted (clock_log s)"
    by (simp_all add: run_inv_def)
  from tb have "\<forall>a \<in> set ?xs. \<forall>t \<in> ?B. t \<le> timestamp a"
    by (meson in_set_takeD)
  with q have "queue_ok ?B (push_trace_events ?xs (event_queue s))"
    by (rule queue_ok_push_trace_events)
  moreover from st have "sorted (map timestamp (drop 100 (trace_reader s)))"
    by (simp add: drop_map [symmetric] sorted_wrt_drop)
  moreover from tb have "\<forall>x \<in> set (drop 100 (trace_reader s)). \<forall>t \<in> ?B. t \<le> timestamp x"
    by (meson in_set_dropD)
  ultimately show ?thesis
    using sc by (simp add: populate_eq run_inv_def)
qed


lemma trace_not_earlier:
  assumes "trace_is_earlier cur (peek_event tr) = Inr False" and "sorted (map timestamp tr)"
  shows "\<forall>x \<in> set tr. timestamp cur \<le> timestamp x"
proof (cases tr)
  case Nil
  then show ?thesis by simp
next
  case (Cons h rest)
  with assms(1) obtain a b where "timestamp cur = Some a" "timestamp h = Some b" "\<not> a > b"
    by (auto simp add: trace_is_earlier_def peek_event_def split: option.splits)
  then have "timestamp cur \<le> timestamp h" by simp
  moreover from assms(2) Cons have "\<forall>x \<in> set rest. timestamp h \<le> timestamp x"
    by simp
  ultimately show ?thesis
    using Cons by (auto intro: order_trans)
qed

lemma run_inv_dispatch:
  assumes env: "env_ok env" and inv: "run_inv s"
    and pk: "peek (event_queue s) = Inr cur"
    and te: "trace_is_earlier cur (peek_event (trace_reader s)) = Inr False"
    and d: "dispatch env cur s = Inr s'"
  shows "run_inv s' \<and> clock_log s' = clock_log s @ [timestamp cur]
         \<and> dispatched s' = dispatched s @ [cur]"
proof -
  let ?t = "timestamp cur"
  let ?B = "set (clock_log s)"
  let ?B' = "insert ?t ?B"
  from pk obtain k q' where qe: "event_queue s = (k, cur) # q'"
    by (cases "event_queue s") (auto simp add: peek_def)
  let ?s1 = "s\<lparr>event_queue := q', current_time := ?t,
                dispatched := dispatched s @ [cur], clock_log := clock_log s @ [?t]\<rparr>"
  let ?s2 = "if verbose ?s1 then ?s1\<lparr>stdout := stdout ?s1 @ [EventLine cur]\<rparr> else ?s1"
  from d qe obtain s3 where db: "debug_break env ?s2 = Inr s3"
      and ex: "execute_event env cur s3 = Inr s'"
    by (cases "debug_break env ?s2") (simp_all add: dispatch_def pop_def and_then_def Let_def)
  have "same_schedule ?s1 ?s2" by (simp add: same_schedule_def)
  with debug_break_same_schedule [OF db] have s13: "same_schedule ?s1 s3"
    by (blast intro: same_schedule_trans)
  then have q3: "event_queue s3 = q'" and c3: "clock_log s3 = clock_log s @ [?t]"
    and t3: "trace_reader s3 = trace_reader s" and n3: "current_time s3 = ?t"
    and d3: "dispatched s3 = dispatched s @ [cur]"
    by (simp_all add: same_schedule_def)
  from inv have q: "queue_ok ?B ((k, cur) # q')"
    and st: "sorted (map timestamp (trace_reader s))"
    and tb: "\<forall>x \<in> set (trace_reader s). \<forall>t \<in> ?B. t \<le> timestamp x"
    and sc: "sorted (clock_log s)"
    by (simp_all add: run_inv_def qe)
  from q have kt: "fst k = ?t" and kq: "keyed_by_timestamp q'"
    by (simp_all add: queue_ok_def keyed_by_timestamp_def)
  from q have sq: "queue_sorted q'" and kle: "\<forall>e \<in> set q'. k \<le> fst e"
    by (simp_all add: queue_ok_def queue_sorted_Cons)
  from q kt have bt: "\<forall>t \<in> ?B. t \<le> ?t"
    by (simp add: queue_ok_def)
  from q have bq: "\<forall>e \<in> set q'. \<forall>t \<in> ?B. t \<le> fst (fst e)"
    by (simp add: queue_ok_def)
  from kle kt have "\<forall>e \<in> set q'. ?t \<le> fst (fst e)"
    using fst_key_mono by metis
  with bq sq kq have q': "queue_ok ?B' q'"
    by (simp add: queue_ok_def)
  from bt have bt': "\<forall>t \<in> ?B'. t \<le> ?t" by simp
  from q' q3 have "queue_ok ?B' (event_queue s3)" by simp
  from execute_event_queue_ok [OF env this bt' n3 [symmetric] ex]
  have qs': "queue_ok ?B' (event_queue s')" and h: "same_history s3 s'"
    by simp_all
  from h c3 t3 d3 have c': "clock_log s' = clock_log s @ [?t]"
    and t': "trace_reader s' = trace_reader s" and d': "dispatched s' = dispatched s @ [cur]"
    by (simp_all add: same_history_def)
  from trace_not_earlier [OF te st] have "\<forall>x \<in> set (trace_reader s). ?t \<le> timestamp x" .
  with tb have tb': "\<forall>x \<in> set (trace_reader s). \<forall>t \<in> ?B'. t \<le> timestamp x"
    by simp
  from sc bt have sc': "sorted (clock_log s @ [?t])"
    by (simp add: sorted_append)
  from qs' st tb' sc' have "run_inv s'"
    by (simp add: run_inv_def c' t')
  with c' d' show ?thesis by simp
qed

lemma step_inv:
  assumes env: "env_ok env" and inv: "run_inv s" and st: "step env s = Inr s'"
  shows "run_inv s' \<and> (log_agrees s \<longrightarrow> log_agrees s')"
proof (cases "size_queue (event_queue s) < EVENT_QUEUE_THRESHOLD \<and> \<not> end_of_trace (trace_reader s)")
  case True
  with st have "s' = populate_event_queue_from_trace s" by (simp add: step_def)
  with inv show ?thesis
    by (simp add: run_inv_populate) (simp add: populate_eq log_agrees_def)
next
  case False
  with st have st2: "and_then (peek (event_queue s)) (\<lambda>cur_event.
        and_then (trace_is_earlier cur_event (peek_event (trace_reader s))) (\<lambda>earlier.
          if earlier then Inr (populate_event_queue_from_trace s)
          else dispatch env cur_event s)) = Inr s'"
    unfolding step_def by (simp split: if_splits)
  then obtain cur where pk: "peek (event_queue s) = Inr cur"
    by (cases "peek (event_queue s)") (simp_all add: and_then_def)
  with st2 obtain earlier where
      te: "trace_is_earlier cur (peek_event (trace_reader s)) = Inr earlier"
    by (cases "trace_is_earlier cur (peek_event (trace_reader s))")
      (simp_all add: and_then_def)
  show ?thesis
  proof (cases earlier)
    case True
    with st2 pk te have "s' = populate_event_queue_from_trace s"
      by (simp add: and_then_def)
    with inv show ?thesis
      by (simp add: run_inv_populate) (simp add: populate_eq log_agrees_def)
  next
    case False
    with st2 pk te have d: "dispatch env cur s = Inr s'"
      by (simp add: and_then_def)
    from False te have "trace_is_earlier cur (peek_event (trace_reader s)) = Inr False"
      by simp
    from run_inv_dispatch [OF env inv pk this d] show ?thesis
      by (simp add: log_agrees_def)
  qed
qed

lemma run_loop_inv:
  "env_ok env \<Longrightarrow> run_inv s \<Longrightarrow> log_agrees s \<Longrightarrow> run_loop env n s = Inr s' \<Longrightarrow>
     run_inv s' \<and> log_agrees s'"
proof (induction n arbitrary: s)
  case 0
  then show ?case by simp
next
  case (Suc n)
  show ?case
  proof (cases "loop_guard s")
    case True
    with Suc.prems obtain s1 where st: "step env s = Inr s1" and rl: "run_loop env n s1 = Inr s'"
      by (cases "step env s") (simp_all add: and_then_def)
    from step_inv [OF Suc.prems(1,2) st] Suc.prems(3) have "run_inv s1" "log_agrees s1"
      by simp_all
    with Suc.prems(1) rl show ?thesis by (intro Suc.IH)
  next
    case False
    with Suc.prems show ?thesis by simp
  qed
qed


text \<open>
  C1, with its preconditions. Take a run from a state that has dispatched nothing yet, whose queue is
  in order with every entry keyed by its event's timestamp, over a trace whose events come
  in non-decreasing timestamp order, in an environment in which no handler and no fire
  action schedules an alarm before the time of the event it is reacting to. After any
  number of passes through the loop (and at its end), the timestamps of the events
  dispatched so far are non-decreasing, and so are the values given to \<open>current_time\<close>
  at the dispatches, which are those timestamps. The trace is pulled in batches of up to
  100 events whenever the queue runs low or lags behind the trace; the statement holds for
  every trace and every queue, hence however the batches fall.
\<close>

theorem dispatch_order:
  assumes env: "env_ok env" and tr: "sorted (map timestamp events)"
    and qs: "queue_sorted (event_queue s)" and qk: "keyed_by_timestamp (event_queue s)"
    and d0: "dispatched s = []" and c0: "clock_log s = []"
    and r: "run env fuel events s = Inr s'"
  shows "sorted (map timestamp (dispatched s')) \<and> sorted (clock_log s')
         \<and> clock_log s' = map timestamp (dispatched s')"
proof -
  let ?s0 = "s\<lparr>trace_reader := events\<rparr>"
  from tr qs qk c0 have i0: "run_inv ?s0"
    by (simp add: run_inv_def queue_ok_def)
  from d0 c0 have l0: "log_agrees ?s0"
    by (simp add: log_agrees_def)
  from r obtain s1 s2 where
      st: "(if debug_mode ?s0 then debug env (?s0\<lparr>debug_interval_cnt := 0\<rparr>) else Inr ?s0) = Inr s1"
    and rl: "run_loop env fuel s1 = Inr s2"
    and fin: "s' = (if loop_guard s2 then s2 else finish s2)"
    unfolding run_def Let_def and_then_def
    by (auto split: sum.splits)
  have "same_schedule ?s0 s1"
  proof (cases "debug_mode ?s0")
    case True
    with st have "debug env (?s0\<lparr>debug_interval_cnt := 0\<rparr>) = Inr s1" by simp
    then have "same_schedule (?s0\<lparr>debug_interval_cnt := 0\<rparr>) s1"
      by (rule debug_same_schedule)
    then show ?thesis by (simp add: same_schedule_def)
  next
    case False
    with st show ?thesis by simp
  qed
  with i0 l0 have "run_inv s1" and "log_agrees s1"
    by (simp_all add: run_inv_same_schedule) (simp add: same_schedule_def log_agrees_def)
  with env rl have "run_inv s2 \<and> log_agrees s2"
    by (intro run_loop_inv)
  then have ri: "run_inv s2" and la: "log_agrees s2"
    by simp_all
  from ri have c2: "sorted (clock_log s2)"
    by (simp add: run_inv_def)
  from la have l2: "clock_log s2 = map timestamp (dispatched s2)"
    by (simp add: log_agrees_def)
  from fin have "clock_log s' = clock_log s2" and "dispatched s' = dispatched s2"
    by (simp_all add: finish_def)
  with c2 l2 show ?thesis by simp
qed

lemma env_ok_forward_env: "env_ok forward_env"
proof -
  have h: "timestamp e \<le> timestamp a"
    if "a \<in> set (case timestamp e of None \<Rightarrow> [] | Some t \<Rightarrow> [alarm_at (t + 1) 0 False])"
    for e a :: event
    using that by (cases "timestamp e") (simp_all add: alarm_at_def)
  have f: "timestamp a \<le> map_option (\<lambda>t. t + max 0 (period a)) (timestamp a)" for a :: event
    by (cases "timestamp a") simp_all
  show ?thesis
    by (simp add: env_ok_def forward_env_def h f)
qed

theorem dispatch_order_witness:
  "env_ok forward_env
   \<and> sorted (map timestamp [trace_event_at 1, trace_event_at 5])
   \<and> queue_sorted (event_queue listening_with_alarm)
   \<and> keyed_by_timestamp (event_queue listening_with_alarm)
   \<and> dispatched listening_with_alarm = [] \<and> clock_log listening_with_alarm = []
   \<and> (\<exists>s'. run forward_env 12 [trace_event_at 1, trace_event_at 5] listening_with_alarm = Inr s'
         \<and> clock_log s' = [Some 1, Some 2, Some 3, Some 5, Some 6]
         \<and> sorted (map timestamp (dispatched s')))"
proof -
  have tr: "sorted (map timestamp [trace_event_at 1, trace_event_at 5])"
    by (simp add: trace_event_at_def)
  have q: "event_queue listening_with_alarm = [((Some 3, ALARM), alarm_at 3 0 False)]"
    by (simp add: listening_with_alarm_def listening_def register_alarm_def subscribe_def
        init_def alarm_at_def)
  have qs: "queue_sorted (event_queue listening_with_alarm)"
    by (simp add: q queue_sorted_def)
  have qk: "keyed_by_timestamp (event_queue listening_with_alarm)"
    by (simp add: q keyed_by_timestamp_def alarm_at_def)
  have d0: "dispatched listening_with_alarm = []" and c0: "clock_log listening_with_alarm = []"
    by (simp_all add: listening_with_alarm_def listening_def register_alarm_def subscribe_def
        init_def)
  have "map_sum id clock_log
          (run forward_env 12 [trace_event_at 1, trace_event_at 5] listening_with_alarm)
        = Inr [Some 1, Some 2, Some 3, Some 5, Some 6]"
    by code_simp
  then obtain s' where
      r: "run forward_env 12 [trace_event_at 1, trace_event_at 5] listening_with_alarm = Inr s'"
    and c: "clock_log s' = [Some 1, Some 2, Some 3, Some 5, Some 6]"
    by (cases "run forward_env 12 [trace_event_at 1, trace_event_at 5] listening_with_alarm")
      simp_all
  from dispatch_order [OF env_ok_forward_env tr qs qk d0 c0 r]
  have "sorted (map timestamp (dispatched s'))" by simp
  with r c have "\<exists>s'. run forward_env 12 [trace_event_at 1, trace_event_at 5]
        listening_with_alarm = Inr s'
         \<and> clock_log s' = [Some 1, Some 2, Some 3, Some 5, Some 6]
         \<and> sorted (map timestamp (dispatched s'))"
    by (intro exI conjI)
  with env_ok_forward_env tr qs qk d0 c0 show ?thesis
    by (intro conjI)
qed

text \<open>
  C1 as stated, for every run, does not hold: the engine takes any alarm it is handed.
  A fresh simulator with one handler subscribed, a trace of one event at time 10, and a
  handler that registers an alarm for time 3 when it is called: the run dispatches the
  trace event at 10, then the alarm at 3, and the clock goes back.
\<close>

theorem dispatch_order_counterexample:
  "sorted (map timestamp [trace_event_at 10])
   \<and> event_queue listening = [] \<and> dispatched listening = [] \<and> clock_log listening = []
   \<and> (\<exists>s'. run late_env 3 [trace_event_at 10] listening = Inr s'
         \<and> clock_log s' = [Some 10, Some 3]
         \<and> map timestamp (dispatched s') = [Some 10, Some 3]
         \<and> \<not> sorted (clock_log s')
         \<and> \<not> sorted (map timestamp (dispatched s')))"
proof -
  have tr: "sorted (map timestamp [trace_event_at 10])"
    by simp
  have i: "event_queue listening = []" "dispatched listening = []" "clock_log listening = []"
    by (simp_all add: listening_def subscribe_def init_def)
  have "map_sum id (\<lambda>s. (clock_log s, map timestamp (dispatched s)))
          (run late_env 3 [trace_event_at 10] listening)
        = Inr ([Some 10, Some 3], [Some 10, Some 3])"
    by code_simp
  then obtain s' where r: "run late_env 3 [trace_event_at 10] listening = Inr s'"
    and c: "clock_log s' = [Some 10, Some 3]"
    and d: "map timestamp (dispatched s') = [Some 10, Some 3]"
    by (cases "run late_env 3 [trace_event_at 10] listening") simp_all
  from c have nc: "\<not> sorted (clock_log s')" by simp
  from d have nd: "\<not> sorted (map timestamp (dispatched s'))" by simp
  from r c d nc nd have "\<exists>s'. run late_env 3 [trace_event_at 10] listening = Inr s'
         \<and> clock_log s' = [Some 10, Some 3]
         \<and> map timestamp (dispatched s') = [Some 10, Some 3]
         \<and> \<not> sorted (clock_log s')
         \<and> \<not> sorted (map timestamp (dispatched s'))"
    by (intro exI conjI)
  with tr i show ?thesis by (intro conjI)
qed

end
